theory Spec2Isabelle
  imports Complex_Main "HOL-Library.Monad_Syntax"
begin

section \<open>The radial Bezier distortion profile\<close>

text \<open>
  A shallow embedding of
  \<^verbatim>\<open>src/CustomHeadsetOpenVR/src/Distortion/RadialBezierDistortionProfile.cpp\<close>.

  Conventions of the embedding:
  \<^item> the functions are first given over exact reals: a C++ \<^verbatim>\<open>float\<close> is a
    \<^typ>\<open>real\<close>, and rounding, overflow, underflow, infinities and NaN are left out.
    Division is the total division of \<^typ>\<open>real\<close>; a statement whose truth depends on
    the value of a quotient has hypotheses under which no denominator of the source is
    zero (strictly increasing degrees or positions), and a statement that only equates
    expressions built from the same quotients needs none.
  \<^item> the functions whose results turn on rounding or on special values
    (\<^verbatim>\<open>SmoothPoints\<close>, \<^verbatim>\<open>SampleFromPoints\<close>, \<^verbatim>\<open>ComputeDistortion\<close>) are given a second
    time over binary32, under the same names with the suffix \<open>32\<close>.
  \<^item> a \<^verbatim>\<open>std::vector\<close> is a list; a read outside the vector is undefined behaviour in
    C++ and is the value \<open>None\<close> of the function that performs it.
  \<^item> the member variables of the class are the fields of a record which every member
    function takes and, when it changes them, returns. The class declaration is in a
    header that the functions below only use; the initial values of the fields are
    therefore inputs.
  \<^item> \<^verbatim>\<open>DriverLog\<close> prints; only the values it is given are computed.
\<close>

subsection \<open>Data\<close>

record DistortionPoint =
  degree :: real
  position :: real

record Point2D =
  x :: real
  y :: real

datatype EVREye = Eye_Left | Eye_Right

datatype ColorChannel = ColorChannelRed | ColorChannelGreen | ColorChannelBlue

record RadialBezierDistortionProfile =
  distortions :: "DistortionPoint list"
  distortionsRed :: "DistortionPoint list"
  distortionsBlue :: "DistortionPoint list"
  inBetweenPoints :: int
  resolution :: real
  radialMapSize :: int
  halfFov :: real
  radialMapConversion :: real
  radialUVMapR :: "real list option"
  radialUVMapG :: "real list option"
  radialUVMapB :: "real list option"

subsection \<open>BezierPoint and SmoothPoints\<close>

text \<open>
  \<^verbatim>\<open>BezierPoint\<close> reads \<^verbatim>\<open>controlPoints[0..3]\<close>; its only caller passes four points.
\<close>

definition BezierPoint :: "real \<Rightarrow> DistortionPoint list \<Rightarrow> DistortionPoint" where
  "BezierPoint t controlPoints =
    (let tSquared = t * t;
         oneMinusT = 1 - t;
         oneMinusTSquared = oneMinusT * oneMinusT;
         pointX =
           oneMinusT ^ 3 * degree (controlPoints ! 0) +
           3 * oneMinusTSquared * t * degree (controlPoints ! 1) +
           3 * oneMinusT * tSquared * degree (controlPoints ! 2) +
           t ^ 3 * degree (controlPoints ! 3);
         pointY =
           oneMinusT ^ 3 * position (controlPoints ! 0) +
           3 * oneMinusTSquared * t * position (controlPoints ! 1) +
           3 * oneMinusT * tSquared * position (controlPoints ! 2) +
           t ^ 3 * position (controlPoints ! 3)
     in \<lparr>degree = pointX, position = pointY\<rparr>)"

text \<open>
  The control points that one pass of the outer loop of \<^verbatim>\<open>SmoothPoints\<close> builds for
  the pair \<open>points[i]\<close>, \<open>points[i + 1]\<close>.
\<close>

definition SmoothControlPoints :: "DistortionPoint list \<Rightarrow> nat \<Rightarrow> DistortionPoint list" where
  "SmoothControlPoints points i =
    (let smoothAmount = 1 / 3;
         prevPoint = points ! i;
         nextPoint = points ! (i + 1);
         prevPrevPoint = (if i \<le> 0 then points ! i else points ! (i - 1));
         nextNextPoint = (if i \<ge> length points - 2 then points ! (i + 1) else points ! (i + 2));
         fallbackSlope =
           (position nextPoint - position prevPoint) / (degree nextPoint - degree prevPoint);
         prevSlope =
           (if i \<le> 0 then fallbackSlope
            else (position nextPoint - position prevPrevPoint) /
                 (degree nextPoint - degree prevPrevPoint));
         nextSlope =
           (if i \<ge> length points - 2 then fallbackSlope
            else (position nextNextPoint - position prevPoint) /
                 (degree nextNextPoint - degree prevPoint));
         centerDistance = (degree nextPoint - degree prevPoint) * smoothAmount;
         centerFromPrev = centerDistance * prevSlope + position prevPoint;
         centerFromNext = - centerDistance * nextSlope + position nextPoint
     in [prevPoint,
         \<lparr>degree = degree prevPoint + centerDistance, position = centerFromPrev\<rparr>,
         \<lparr>degree = degree nextPoint - centerDistance, position = centerFromNext\<rparr>,
         nextPoint])"

text \<open>
  What one pass of the outer loop pushes to \<^verbatim>\<open>outPoints\<close>: \<open>prevPoint\<close>, then the
  points of the inner loop over \<open>j\<close>.
\<close>

definition SmoothSegment :: "DistortionPoint list \<Rightarrow> int \<Rightarrow> nat \<Rightarrow> DistortionPoint list" where
  "SmoothSegment points innerPointCounts i =
    (let controlPoints = SmoothControlPoints points i
     in points ! i #
        map (\<lambda>j. BezierPoint (real (j + 1) / real_of_int (innerPointCounts + 1)) controlPoints)
          [0..<nat innerPointCounts])"

function SmoothPoints_loop ::
  "DistortionPoint list \<Rightarrow> int \<Rightarrow> nat \<Rightarrow> DistortionPoint list \<Rightarrow> DistortionPoint list" where
  "SmoothPoints_loop points innerPointCounts i outPoints =
    (if i < length points - 1
     then SmoothPoints_loop points innerPointCounts (i + 1)
            (outPoints @ SmoothSegment points innerPointCounts i)
     else outPoints)"
  by pat_completeness auto
termination
  by (relation "measure (\<lambda>(points, c, i, outPoints). length points - 1 - i)") auto

declare SmoothPoints_loop.simps [simp del]

text \<open>
  On an empty vector \<^verbatim>\<open>points.size() - 1\<close> wraps around (it is unsigned), so the loop
  is entered and reads \<^verbatim>\<open>points[0]\<close>: undefined behaviour.
\<close>

definition SmoothPoints :: "DistortionPoint list \<Rightarrow> int \<Rightarrow> DistortionPoint list option" where
  "SmoothPoints points innerPointCounts =
    (if points = [] then None
     else Some (SmoothPoints_loop points innerPointCounts 0 [] @ [points ! (length points - 1)]))"

subsection \<open>Sampling\<close>

definition lerp :: "real \<Rightarrow> real \<Rightarrow> real \<Rightarrow> real" where
  "lerp a b t = a + t * (b - a)"

text \<open>The \<^verbatim>\<open>for\<close> loop of \<^verbatim>\<open>SampleFromPoints\<close>; \<open>None\<close> when it ends without returning.\<close>

function SampleFromPoints_loop :: "DistortionPoint list \<Rightarrow> real \<Rightarrow> nat \<Rightarrow> real option" where
  "SampleFromPoints_loop points d i =
    (if i < length points - 1 then
       (if d \<ge> degree (points ! i) \<and> d \<le> degree (points ! (i + 1)) then
          (let t = (d - degree (points ! i)) / (degree (points ! (i + 1)) - degree (points ! i))
           in Some (position (points ! i) + t * (position (points ! (i + 1)) - position (points ! i))))
        else SampleFromPoints_loop points d (i + 1))
     else None)"
  by pat_completeness auto
termination
  by (relation "measure (\<lambda>(points, d, i). length points - 1 - i)") auto

declare SampleFromPoints_loop.simps [simp del]

text \<open>
  \<open>None\<close> is a read outside the vector: on an empty vector, and on a one-point vector
  when the degree is not below the point's (then \<open>i = -1\<close>).
\<close>

definition SampleFromPoints :: "DistortionPoint list \<Rightarrow> real \<Rightarrow> real option" where
  "SampleFromPoints points d =
    (if points = [] then None
     else case SampleFromPoints_loop points d 0 of
       Some r \<Rightarrow> Some r
     | None \<Rightarrow>
         if d < degree (points ! 0) then Some (position (points ! 0))
         else if length points < 2 then None
         else
           (let i = length points - 2;
                t = (d - degree (points ! i)) / (degree (points ! (i + 1)) - degree (points ! i))
            in Some (lerp (position (points ! i)) (position (points ! (i + 1))) t)))"

function SampleFromPointsInverse_loop :: "DistortionPoint list \<Rightarrow> real \<Rightarrow> nat \<Rightarrow> real option" where
  "SampleFromPointsInverse_loop points p i =
    (if i < length points - 1 then
       (if p \<ge> position (points ! i) \<and> p \<le> position (points ! (i + 1)) then
          (let t = (p - position (points ! i)) / (position (points ! (i + 1)) - position (points ! i))
           in Some (degree (points ! i) + t * (degree (points ! (i + 1)) - degree (points ! i))))
        else SampleFromPointsInverse_loop points p (i + 1))
     else None)"
  by pat_completeness auto
termination
  by (relation "measure (\<lambda>(points, p, i). length points - 1 - i)") auto

declare SampleFromPointsInverse_loop.simps [simp del]

definition SampleFromPointsInverse :: "DistortionPoint list \<Rightarrow> real \<Rightarrow> real option" where
  "SampleFromPointsInverse points p =
    (if points = [] then None
     else case SampleFromPointsInverse_loop points p 0 of
       Some r \<Rightarrow> Some r
     | None \<Rightarrow>
         if p < position (points ! 0) then Some (degree (points ! 0))
         else if length points < 2 then None
         else
           (let i = length points - 2;
                t = (p - position (points ! i)) / (position (points ! (i + 1)) - position (points ! i))
            in Some (lerp (degree (points ! i)) (degree (points ! (i + 1))) t)))"

subsection \<open>The member functions\<close>

definition Cleanup :: "RadialBezierDistortionProfile \<Rightarrow> RadialBezierDistortionProfile" where
  "Cleanup s = s\<lparr>radialUVMapR := None, radialUVMapG := None, radialUVMapB := None\<rparr>"

definition ComputePPD ::
  "RadialBezierDistortionProfile \<Rightarrow> DistortionPoint list \<Rightarrow> real \<Rightarrow> real \<Rightarrow> real option" where
  "ComputePPD s distortion degreeStart degreeEnd =
    do {
      atEnd \<leftarrow> SampleFromPoints distortion degreeEnd;
      atStart \<leftarrow> SampleFromPoints distortion degreeStart;
      Some ((atEnd - atStart) / (degreeEnd - degreeStart) / 100 * resolution s / 2)
    }"

text \<open>
  The loop of \<^verbatim>\<open>Initialize\<close> that corrects for chromatic aberration. Its state is the
  two copies of the green curve and \<^verbatim>\<open>halfFov\<close>.
\<close>

function ChromaticCorrection_loop ::
  "DistortionPoint list \<Rightarrow> DistortionPoint list \<Rightarrow> DistortionPoint list \<Rightarrow> nat \<Rightarrow>
   DistortionPoint list \<times> DistortionPoint list \<times> real \<Rightarrow>
   (DistortionPoint list \<times> DistortionPoint list \<times> real) option" where
  "ChromaticCorrection_loop distortionsSmoothGreen distortionsRedPercent distortionsBluePercent i
     (distortionsSmoothRed, distortionsSmoothBlue, hf) =
    (if i < length distortionsSmoothGreen then
       (case SampleFromPoints distortionsRedPercent (degree (distortionsSmoothRed ! i)) of
          None \<Rightarrow> None
        | Some r \<Rightarrow>
          (case SampleFromPoints distortionsBluePercent (degree (distortionsSmoothBlue ! i)) of
             None \<Rightarrow> None
           | Some b \<Rightarrow>
               ChromaticCorrection_loop distortionsSmoothGreen distortionsRedPercent
                 distortionsBluePercent (i + 1)
                 (distortionsSmoothRed
                    [i := (distortionsSmoothRed ! i)
                       \<lparr>position := position (distortionsSmoothRed ! i) * (r / 100 + 1)\<rparr>],
                  distortionsSmoothBlue
                    [i := (distortionsSmoothBlue ! i)
                       \<lparr>position := position (distortionsSmoothBlue ! i) * (b / 100 + 1)\<rparr>],
                  max hf (degree (distortionsSmoothGreen ! i)))))
     else Some (distortionsSmoothRed, distortionsSmoothBlue, hf))"
  by pat_completeness auto
termination
  by (relation "measure (\<lambda>(g, r, b, i, st). length g - i)") auto

declare ChromaticCorrection_loop.simps [simp del]

text \<open>
  The first part of \<^verbatim>\<open>Initialize\<close>, up to the end of the chromatic aberration loop:
  the smoothed green curve, the corrected red and blue curves, and \<^verbatim>\<open>halfFov\<close>.
\<close>

definition Initialize_curves ::
  "RadialBezierDistortionProfile \<Rightarrow>
   (DistortionPoint list \<times> DistortionPoint list \<times> DistortionPoint list \<times> real) option" where
  "Initialize_curves s =
    do {
      distortionsSmoothGreen \<leftarrow> SmoothPoints (distortions s) (inBetweenPoints s);
      distortionsRedPercent \<leftarrow> SmoothPoints (distortionsRed s) (inBetweenPoints s);
      distortionsBluePercent \<leftarrow> SmoothPoints (distortionsBlue s) (inBetweenPoints s);
      (distortionsSmoothRed, distortionsSmoothBlue, hf) \<leftarrow>
        ChromaticCorrection_loop distortionsSmoothGreen distortionsRedPercent
          distortionsBluePercent 0 (distortionsSmoothGreen, distortionsSmoothGreen, halfFov s);
      Some (distortionsSmoothGreen, distortionsSmoothRed, distortionsSmoothBlue, hf)
    }"

text \<open>The values that \<^verbatim>\<open>Initialize\<close> logs; they are computed and dropped.\<close>

definition Initialize_log ::
  "RadialBezierDistortionProfile \<Rightarrow> DistortionPoint list \<Rightarrow> unit option" where
  "Initialize_log s distortionsSmoothGreen =
    do {
      _ \<leftarrow> ComputePPD s distortionsSmoothGreen 0 1;
      _ \<leftarrow> ComputePPD s distortionsSmoothGreen 10 11;
      _ \<leftarrow> ComputePPD s distortionsSmoothGreen 20 21;
      _ \<leftarrow> ComputePPD s distortionsSmoothGreen 30 31;
      _ \<leftarrow> ComputePPD s distortionsSmoothGreen 40 41;
      _ \<leftarrow> ComputePPD s distortionsSmoothGreen 0 10;
      _ \<leftarrow> ComputePPD s distortionsSmoothGreen 0 20;
      Some ()
    }"

text \<open>The conversion of one point from degrees into input screen space.\<close>

definition ToInputSpace :: "real \<Rightarrow> DistortionPoint \<Rightarrow> DistortionPoint" where
  "ToInputSpace edgeTan pt = pt\<lparr>degree := tan (degree pt * pi / 180) / edgeTan\<rparr>"

text \<open>One radial map: entry \<open>i\<close> is the inverse sample at \<open>i / radialMapConversion * 100\<close>.\<close>

definition RadialMap :: "DistortionPoint list \<Rightarrow> int \<Rightarrow> real \<Rightarrow> real list option" where
  "RadialMap curve mapSize conversion =
    those (map (\<lambda>i. SampleFromPointsInverse curve (real i / conversion * 100)) [0..<nat mapSize])"

text \<open>
  \<^verbatim>\<open>Initialize\<close>. The maximum input to output ratio is only logged and is left out;
  \<^verbatim>\<open>new float[radialMapSize]\<close> throws on a negative size.
\<close>

definition Initialize :: "RadialBezierDistortionProfile \<Rightarrow> RadialBezierDistortionProfile option" where
  "Initialize s0 =
    do {
      let s = Cleanup s0;
      (distortionsSmoothGreen, distortionsSmoothRed, distortionsSmoothBlue, hf) \<leftarrow>
        Initialize_curves s;
      _ \<leftarrow> Initialize_log s distortionsSmoothGreen;
      let edgeTan = tan (hf * pi / 180);
      let inputRed = map (ToInputSpace edgeTan) distortionsSmoothRed;
      let inputGreen = map (ToInputSpace edgeTan) distortionsSmoothGreen;
      let inputBlue = map (ToInputSpace edgeTan) distortionsSmoothBlue;
      if radialMapSize s < 0 then None
      else do {
        let conversion = real_of_int (radialMapSize s) / 1;
        mapR \<leftarrow> RadialMap inputRed (radialMapSize s) conversion;
        mapG \<leftarrow> RadialMap inputGreen (radialMapSize s) conversion;
        mapB \<leftarrow> RadialMap inputBlue (radialMapSize s) conversion;
        Some (s\<lparr>halfFov := hf, radialMapConversion := conversion,
                radialUVMapR := Some mapR, radialUVMapG := Some mapG, radialUVMapB := Some mapB\<rparr>)
      }
    }"

text \<open>The four results, in the order of the parameters: left, right, bottom, top.\<close>

definition GetProjectionRaw ::
  "RadialBezierDistortionProfile \<Rightarrow> EVREye \<Rightarrow> real \<times> real \<times> real \<times> real" where
  "GetProjectionRaw s eEye =
    (let hFovHalf = halfFov s * pi / 180;
         vFovHalf = halfFov s * pi / 180
     in (tan (- hFovHalf), tan hFovHalf, tan (- vFovHalf), tan vFovHalf))"

text \<open>
  The conversion \<^verbatim>\<open>(int)\<close> of a float truncates towards zero; it is undefined when the
  result does not fit a 32-bit \<^verbatim>\<open>int\<close>.
\<close>

definition float_to_int :: "real \<Rightarrow> int option" where
  "float_to_int v =
    (let k = (if v \<ge> 0 then \<lfloor>v\<rfloor> else \<lceil>v\<rceil>)
     in if - (2 ^ 31) \<le> k \<and> k < 2 ^ 31 then Some k else None)"

text \<open>
  The index into the map that \<^verbatim>\<open>SampleFromMap\<close> computes from the radius.
\<close>

definition SampleFromMap_index :: "RadialBezierDistortionProfile \<Rightarrow> real \<Rightarrow> int option" where
  "SampleFromMap_index s radius =
    do {
      index \<leftarrow> float_to_int (radius * radialMapConversion s);
      Some (if index < 0 then 0
            else if index \<ge> radialMapSize s - 1 then radialMapSize s - 2
            else index)
    }"

text \<open>
  \<open>None\<close> when the map is the null pointer or a read is outside the map.
\<close>

definition SampleFromMap ::
  "RadialBezierDistortionProfile \<Rightarrow> real list option \<Rightarrow> real \<Rightarrow> real option" where
  "SampleFromMap s radialMap radius =
    do {
      m \<leftarrow> radialMap;
      index \<leftarrow> SampleFromMap_index s radius;
      if 0 \<le> index \<and> index + 1 < int (length m)
      then Some (lerp (m ! nat index) (m ! nat (index + 1))
                   (radius * radialMapConversion s - real_of_int index))
      else None
    }"

text \<open>
  \<^verbatim>\<open>fU / radius\<close> with \<open>radius = 0\<close>: with exact arithmetic the radius is zero only
  for \<open>fU = fV = 0\<close>, where the quotient \<open>0 / 0\<close> is NaN; the test
  \<^verbatim>\<open>unitU != unitU\<close> holds exactly of NaN, and the source then stores 0. The
  binary32 version, in which a product can underflow, is \<open>ComputeDistortion32\<close> below.
\<close>

definition ComputeDistortion ::
  "RadialBezierDistortionProfile \<Rightarrow> EVREye \<Rightarrow> ColorChannel \<Rightarrow> real \<Rightarrow> real \<Rightarrow> Point2D option" where
  "ComputeDistortion s eEye colorChannel fU fV =
    (let radius = sqrt (fU * fU + fV * fV);
         unitU = (if radius = 0 then 0 else fU / radius);
         unitV = (if radius = 0 then 0 else fV / radius)
     in do {
       radius' \<leftarrow>
         (case colorChannel of
            ColorChannelRed \<Rightarrow> SampleFromMap s (radialUVMapR s) radius
          | ColorChannelGreen \<Rightarrow> SampleFromMap s (radialUVMapG s) radius
          | ColorChannelBlue \<Rightarrow> SampleFromMap s (radialUVMapB s) radius);
       Some \<lparr>x = unitU * radius', y = unitV * radius'\<rparr>
     })"

subsection \<open>Binary32 arithmetic\<close>

text \<open>
  The definitions above compute over exact reals. Where a statement turns on the rounding
  of binary32 or on its special values, the functions are given a second time below,
  with every operation of the source rounded as IEEE 754 rounds it. Each operation rounds
  once (no fused multiply-add).
\<close>

text \<open>
  A binary floating-point value: a finite real, an infinity or a NaN. The sign of a zero
  is not modelled; a zero divisor counts as \<open>+0\<close>, which is what the one divisor of the
  source that can be zero is (the square root of a sum of squares).
\<close>

datatype fp = Finite real | PInf | NInf | NaN

definition pow2 :: "int \<Rightarrow> real" where
  "pow2 e = (if 0 \<le> e then 2 ^ nat e else 1 / 2 ^ nat (- e))"

text \<open>
  Rounding to nearest, ties to even, to a format of \<open>p\<close> significant bits whose least
  normal binade is \<open>emin\<close> and whose greatest is \<open>emax\<close>: the value is rounded to an
  integer multiple of the quantum of its binade (of the subnormal quantum below
  \<open>2^emin\<close>), and overflows to an infinity when the result reaches \<open>2^(emax + 1)\<close>.
  \<open>round32\<close> is binary32 (\<^verbatim>\<open>float\<close>), \<open>round64\<close> is binary64 (\<^verbatim>\<open>double\<close>).
\<close>

definition round_half_even :: "real \<Rightarrow> int" where
  "round_half_even r =
    (let f = \<lfloor>r\<rfloor>; d = r - of_int f
     in if d < 1 / 2 then f else if 1 / 2 < d then f + 1 else if even f then f else f + 1)"

definition round_to :: "nat \<Rightarrow> int \<Rightarrow> int \<Rightarrow> real \<Rightarrow> fp" where
  "round_to p emin emax v =
    (if v = 0 then Finite 0
     else
       (let e = max \<lfloor>log 2 \<bar>v\<bar>\<rfloor> emin;
            q = pow2 (e - int p + 1);
            r = q * of_int (round_half_even (v / q))
        in if pow2 (emax + 1) \<le> \<bar>r\<bar> then (if 0 < v then PInf else NInf) else Finite r))"

definition round32 :: "real \<Rightarrow> fp" where
  "round32 = round_to 24 (- 126) 127"

definition round64 :: "real \<Rightarrow> fp" where
  "round64 = round_to 53 (- 1022) 1023"


text \<open>
  The operations of IEEE 754 on these values; each takes the rounding of its result
  format. \<open>fne\<close> is \<^verbatim>\<open>!=\<close>, which holds whenever an operand is a NaN.
\<close>

fun fneg :: "fp \<Rightarrow> fp" where
  "fneg (Finite u) = Finite (- u)"
| "fneg PInf = NInf"
| "fneg NInf = PInf"
| "fneg NaN = NaN"

fun fadd :: "(real \<Rightarrow> fp) \<Rightarrow> fp \<Rightarrow> fp \<Rightarrow> fp" where
  "fadd rnd (Finite u) (Finite v) = rnd (u + v)"
| "fadd rnd NaN b = NaN"
| "fadd rnd a NaN = NaN"
| "fadd rnd PInf NInf = NaN"
| "fadd rnd NInf PInf = NaN"
| "fadd rnd PInf b = PInf"
| "fadd rnd a PInf = PInf"
| "fadd rnd NInf b = NInf"
| "fadd rnd a NInf = NInf"

definition fsub :: "(real \<Rightarrow> fp) \<Rightarrow> fp \<Rightarrow> fp \<Rightarrow> fp" where
  "fsub rnd a b = fadd rnd a (fneg b)"

fun fmul :: "(real \<Rightarrow> fp) \<Rightarrow> fp \<Rightarrow> fp \<Rightarrow> fp" where
  "fmul rnd (Finite u) (Finite v) = rnd (u * v)"
| "fmul rnd NaN b = NaN"
| "fmul rnd a NaN = NaN"
| "fmul rnd (Finite u) PInf = (if u = 0 then NaN else if 0 < u then PInf else NInf)"
| "fmul rnd (Finite u) NInf = (if u = 0 then NaN else if 0 < u then NInf else PInf)"
| "fmul rnd PInf (Finite v) = (if v = 0 then NaN else if 0 < v then PInf else NInf)"
| "fmul rnd NInf (Finite v) = (if v = 0 then NaN else if 0 < v then NInf else PInf)"
| "fmul rnd PInf PInf = PInf"
| "fmul rnd PInf NInf = NInf"
| "fmul rnd NInf PInf = NInf"
| "fmul rnd NInf NInf = PInf"

fun fdiv :: "(real \<Rightarrow> fp) \<Rightarrow> fp \<Rightarrow> fp \<Rightarrow> fp" where
  "fdiv rnd (Finite u) (Finite v) =
     (if v = 0 then (if u = 0 then NaN else if 0 < u then PInf else NInf) else rnd (u / v))"
| "fdiv rnd NaN b = NaN"
| "fdiv rnd a NaN = NaN"
| "fdiv rnd (Finite u) PInf = Finite 0"
| "fdiv rnd (Finite u) NInf = Finite 0"
| "fdiv rnd PInf (Finite v) = (if 0 \<le> v then PInf else NInf)"
| "fdiv rnd NInf (Finite v) = (if 0 \<le> v then NInf else PInf)"
| "fdiv rnd PInf PInf = NaN"
| "fdiv rnd PInf NInf = NaN"
| "fdiv rnd NInf PInf = NaN"
| "fdiv rnd NInf NInf = NaN"

fun fsqrt :: "(real \<Rightarrow> fp) \<Rightarrow> fp \<Rightarrow> fp" where
  "fsqrt rnd (Finite u) = (if u < 0 then NaN else rnd (sqrt u))"
| "fsqrt rnd PInf = PInf"
| "fsqrt rnd NInf = NaN"
| "fsqrt rnd NaN = NaN"

fun fpow3 :: "(real \<Rightarrow> fp) \<Rightarrow> fp \<Rightarrow> fp" where
  "fpow3 rnd (Finite u) = rnd (u ^ 3)"
| "fpow3 rnd PInf = PInf"
| "fpow3 rnd NInf = NInf"
| "fpow3 rnd NaN = NaN"

fun fle :: "fp \<Rightarrow> fp \<Rightarrow> bool" where
  "fle (Finite u) (Finite v) = (u \<le> v)"
| "fle NaN b = False"
| "fle a NaN = False"
| "fle NInf b = True"
| "fle a PInf = True"
| "fle PInf b = False"
| "fle a NInf = False"

fun flt :: "fp \<Rightarrow> fp \<Rightarrow> bool" where
  "flt (Finite u) (Finite v) = (u < v)"
| "flt NaN b = False"
| "flt a NaN = False"
| "flt PInf b = False"
| "flt a NInf = False"
| "flt NInf b = True"
| "flt a PInf = True"

definition fne :: "fp \<Rightarrow> fp \<Rightarrow> bool" where
  "fne a b = (a = NaN \<or> b = NaN \<or> a \<noteq> b)"

text \<open>
  The conversions: \<^verbatim>\<open>double\<close> to \<^verbatim>\<open>float\<close>, \<^verbatim>\<open>int\<close> to \<^verbatim>\<open>float\<close>, and \<^verbatim>\<open>float\<close> to
  \<^verbatim>\<open>int\<close>, which is undefined on an infinity and on a NaN too.
\<close>

fun to_float :: "fp \<Rightarrow> fp" where
  "to_float (Finite v) = round32 v"
| "to_float PInf = PInf"
| "to_float NInf = NInf"
| "to_float NaN = NaN"

definition float_of_int :: "int \<Rightarrow> fp" where
  "float_of_int k = round32 (of_int k)"

fun fp_to_int :: "fp \<Rightarrow> int option" where
  "fp_to_int (Finite v) = float_to_int v"
| "fp_to_int PInf = None"
| "fp_to_int NInf = None"
| "fp_to_int NaN = None"

text \<open>A real is a binary32 value when rounding to binary32 leaves it as it is.\<close>

definition is_binary32 :: "real \<Rightarrow> bool" where
  "is_binary32 v = (round32 v = Finite v)"

subsection \<open>The functions over binary32\<close>

record DistortionPoint32 =
  degree32 :: fp
  position32 :: fp

record Point2D32 =
  x32 :: fp
  y32 :: fp

record RadialMaps32 =
  radialMapSize32 :: int
  radialMapConversion32 :: fp
  radialUVMapR32 :: "fp list option"
  radialUVMapG32 :: "fp list option"
  radialUVMapB32 :: "fp list option"

text \<open>
  \<^verbatim>\<open>BezierPoint\<close> over binary32. \<^verbatim>\<open>pow(float, int)\<close> is the \<^verbatim>\<open>double\<close> function of
  \<^verbatim>\<open>cmath\<close>, taken as correctly rounded, so the two products with it and the three sums
  are \<^verbatim>\<open>double\<close> operations; the products \<^verbatim>\<open>3 * oneMinusTSquared * t * degree\<close> are
  \<^verbatim>\<open>float\<close> operations; the sum is rounded to \<^verbatim>\<open>float\<close> when it is stored.
\<close>

definition BezierPoint32 :: "fp \<Rightarrow> DistortionPoint32 list \<Rightarrow> DistortionPoint32" where
  "BezierPoint32 t controlPoints =
    (let tSquared = fmul round32 t t;
         oneMinusT = fsub round32 (float_of_int 1) t;
         oneMinusTSquared = fmul round32 oneMinusT oneMinusT;
         pointX = to_float
           (fadd round64
             (fadd round64
               (fadd round64
                 (fmul round64 (fpow3 round64 oneMinusT) (degree32 (controlPoints ! 0)))
                 (fmul round32 (fmul round32 (fmul round32 (float_of_int 3) oneMinusTSquared) t)
                    (degree32 (controlPoints ! 1))))
               (fmul round32 (fmul round32 (fmul round32 (float_of_int 3) oneMinusT) tSquared)
                  (degree32 (controlPoints ! 2))))
             (fmul round64 (fpow3 round64 t) (degree32 (controlPoints ! 3))));
         pointY = to_float
           (fadd round64
             (fadd round64
               (fadd round64
                 (fmul round64 (fpow3 round64 oneMinusT) (position32 (controlPoints ! 0)))
                 (fmul round32 (fmul round32 (fmul round32 (float_of_int 3) oneMinusTSquared) t)
                    (position32 (controlPoints ! 1))))
               (fmul round32 (fmul round32 (fmul round32 (float_of_int 3) oneMinusT) tSquared)
                  (position32 (controlPoints ! 2))))
             (fmul round64 (fpow3 round64 t) (position32 (controlPoints ! 3))))
     in \<lparr>degree32 = pointX, position32 = pointY\<rparr>)"

definition SmoothControlPoints32 :: "DistortionPoint32 list \<Rightarrow> nat \<Rightarrow> DistortionPoint32 list" where
  "SmoothControlPoints32 points i =
    (let smoothAmount = fdiv round32 (Finite 1) (Finite 3);
         prevPoint = points ! i;
         nextPoint = points ! (i + 1);
         prevPrevPoint = (if i \<le> 0 then points ! i else points ! (i - 1));
         nextNextPoint = (if i \<ge> length points - 2 then points ! (i + 1) else points ! (i + 2));
         fallbackSlope =
           fdiv round32 (fsub round32 (position32 nextPoint) (position32 prevPoint))
             (fsub round32 (degree32 nextPoint) (degree32 prevPoint));
         prevSlope =
           (if i \<le> 0 then fallbackSlope
            else fdiv round32 (fsub round32 (position32 nextPoint) (position32 prevPrevPoint))
                   (fsub round32 (degree32 nextPoint) (degree32 prevPrevPoint)));
         nextSlope =
           (if i \<ge> length points - 2 then fallbackSlope
            else fdiv round32 (fsub round32 (position32 nextNextPoint) (position32 prevPoint))
                   (fsub round32 (degree32 nextNextPoint) (degree32 prevPoint)));
         centerDistance =
           fmul round32 (fsub round32 (degree32 nextPoint) (degree32 prevPoint)) smoothAmount;
         centerFromPrev = fadd round32 (fmul round32 centerDistance prevSlope) (position32 prevPoint);
         centerFromNext =
           fadd round32 (fmul round32 (fneg centerDistance) nextSlope) (position32 nextPoint)
     in [prevPoint,
         \<lparr>degree32 = fadd round32 (degree32 prevPoint) centerDistance, position32 = centerFromPrev\<rparr>,
         \<lparr>degree32 = fsub round32 (degree32 nextPoint) centerDistance, position32 = centerFromNext\<rparr>,
         nextPoint])"

definition SmoothSegment32 :: "DistortionPoint32 list \<Rightarrow> int \<Rightarrow> nat \<Rightarrow> DistortionPoint32 list" where
  "SmoothSegment32 points innerPointCounts i =
    (let controlPoints = SmoothControlPoints32 points i
     in points ! i #
        map (\<lambda>j. BezierPoint32
                   (fdiv round32 (float_of_int (int j + 1)) (float_of_int (innerPointCounts + 1)))
                   controlPoints)
          [0..<nat innerPointCounts])"




definition lerp32 :: "fp \<Rightarrow> fp \<Rightarrow> fp \<Rightarrow> fp" where
  "lerp32 a b t = fadd round32 a (fmul round32 t (fsub round32 b a))"

function SampleFromPoints32_loop :: "DistortionPoint32 list \<Rightarrow> fp \<Rightarrow> nat \<Rightarrow> fp option" where
  "SampleFromPoints32_loop points d i =
    (if i < length points - 1 then
       (if fle (degree32 (points ! i)) d \<and> fle d (degree32 (points ! (i + 1))) then
          (let t = fdiv round32 (fsub round32 d (degree32 (points ! i)))
                     (fsub round32 (degree32 (points ! (i + 1))) (degree32 (points ! i)))
           in Some (fadd round32 (position32 (points ! i))
                      (fmul round32 t
                         (fsub round32 (position32 (points ! (i + 1))) (position32 (points ! i))))))
        else SampleFromPoints32_loop points d (i + 1))
     else None)"
  by pat_completeness auto
termination
  by (relation "measure (\<lambda>(points, d, i). length points - 1 - i)") auto

declare SampleFromPoints32_loop.simps [simp del]

definition SampleFromPoints32 :: "DistortionPoint32 list \<Rightarrow> fp \<Rightarrow> fp option" where
  "SampleFromPoints32 points d =
    (if points = [] then None
     else case SampleFromPoints32_loop points d 0 of
       Some r \<Rightarrow> Some r
     | None \<Rightarrow>
         if flt d (degree32 (points ! 0)) then Some (position32 (points ! 0))
         else if length points < 2 then None
         else
           (let i = length points - 2;
                t = fdiv round32 (fsub round32 d (degree32 (points ! i)))
                      (fsub round32 (degree32 (points ! (i + 1))) (degree32 (points ! i)))
            in Some (lerp32 (position32 (points ! i)) (position32 (points ! (i + 1))) t)))"

text \<open>
  \<^verbatim>\<open>SampleFromMap\<close> and \<^verbatim>\<open>ComputeDistortion\<close> over binary32, on the fields they read.
  The NaN test is the source's \<^verbatim>\<open>unitU != unitU\<close>.
\<close>

definition SampleFromMap32 :: "RadialMaps32 \<Rightarrow> fp list option \<Rightarrow> fp \<Rightarrow> fp option" where
  "SampleFromMap32 s radialMap radius =
    do {
      m \<leftarrow> radialMap;
      let indexFloat = fmul round32 radius (radialMapConversion32 s);
      index0 \<leftarrow> fp_to_int indexFloat;
      let index = (if index0 < 0 then 0
                   else if index0 \<ge> radialMapSize32 s - 1 then radialMapSize32 s - 2
                   else index0);
      if 0 \<le> index \<and> index + 1 < int (length m)
      then Some (lerp32 (m ! nat index) (m ! nat (index + 1))
                   (fsub round32 indexFloat (float_of_int index)))
      else None
    }"

definition ComputeDistortion32 ::
  "RadialMaps32 \<Rightarrow> EVREye \<Rightarrow> ColorChannel \<Rightarrow> fp \<Rightarrow> fp \<Rightarrow> Point2D32 option" where
  "ComputeDistortion32 s eEye colorChannel fU fV =
    (let radius = fsqrt round32 (fadd round32 (fmul round32 fU fU) (fmul round32 fV fV));
         unitU0 = fdiv round32 fU radius;
         unitV0 = fdiv round32 fV radius;
         unitU = (if fne unitU0 unitU0 then float_of_int 0 else unitU0);
         unitV = (if fne unitV0 unitV0 then float_of_int 0 else unitV0)
     in do {
       radius' \<leftarrow>
         (case colorChannel of
            ColorChannelRed \<Rightarrow> SampleFromMap32 s (radialUVMapR32 s) radius
          | ColorChannelGreen \<Rightarrow> SampleFromMap32 s (radialUVMapG32 s) radius
          | ColorChannelBlue \<Rightarrow> SampleFromMap32 s (radialUVMapB32 s) radius);
       Some \<lparr>x32 = fmul round32 unitU radius', y32 = fmul round32 unitV radius'\<rparr>
     })"

text \<open>
  The expression that the loop of \<^verbatim>\<open>SampleFromPoints\<close> returns for segment \<open>k\<close>.
\<close>

definition interpolate32 :: "DistortionPoint32 list \<Rightarrow> nat \<Rightarrow> fp \<Rightarrow> fp" where
  "interpolate32 points k d =
     fadd round32 (position32 (points ! k))
       (fmul round32
          (fdiv round32 (fsub round32 d (degree32 (points ! k)))
             (fsub round32 (degree32 (points ! (k + 1))) (degree32 (points ! k))))
          (fsub round32 (position32 (points ! (k + 1))) (position32 (points ! k))))"

subsection \<open>The smoothing curve as the specification words it\<close>

text \<open>
  The cubic Bernstein basis, the Bezier curve over four control points, evaluated
  on each axis on its own, and the control points the specification gives for the pair
  \<open>points[i]\<close>, \<open>points[i + 1]\<close>: \<open>g\<close> is the degree gap of the pair, \<open>s_prev\<close> the
  secant slope from \<open>points[i - 1]\<close> to \<open>points[i + 1]\<close> and \<open>s_next\<close> the one from
  \<open>points[i]\<close> to \<open>points[i + 2]\<close>, each the chord slope of the pair at the boundary.
  These definitions follow the specification, not the source.
\<close>

definition secant_slope :: "DistortionPoint \<Rightarrow> DistortionPoint \<Rightarrow> real" where
  "secant_slope a b = (position b - position a) / (degree b - degree a)"

fun bernstein3 :: "nat \<Rightarrow> real \<Rightarrow> real" where
  "bernstein3 0 t = (1 - t) ^ 3"
| "bernstein3 (Suc 0) t = 3 * (1 - t) ^ 2 * t"
| "bernstein3 (Suc (Suc 0)) t = 3 * (1 - t) * t ^ 2"
| "bernstein3 (Suc (Suc (Suc k))) t = t ^ 3"

definition cubic_bezier ::
  "DistortionPoint \<Rightarrow> DistortionPoint \<Rightarrow> DistortionPoint \<Rightarrow> DistortionPoint \<Rightarrow> real \<Rightarrow> DistortionPoint" where
  "cubic_bezier P0 P1 P2 P3 t =
    \<lparr>degree = bernstein3 0 t * degree P0 + bernstein3 1 t * degree P1 +
              bernstein3 2 t * degree P2 + bernstein3 3 t * degree P3,
     position = bernstein3 0 t * position P0 + bernstein3 1 t * position P1 +
                bernstein3 2 t * position P2 + bernstein3 3 t * position P3\<rparr>"

definition spec_control_points :: "DistortionPoint list \<Rightarrow> nat \<Rightarrow> DistortionPoint list" where
  "spec_control_points points i =
    (let P0 = points ! i;
         P3 = points ! (i + 1);
         g = degree P3 - degree P0;
         s_prev = (if i = 0 then secant_slope P0 P3 else secant_slope (points ! (i - 1)) P3);
         s_next = (if i + 1 = length points - 1 then secant_slope P0 P3
                   else secant_slope P0 (points ! (i + 2)));
         P1 = \<lparr>degree = degree P0 + g / 3, position = position P0 + (g / 3) * s_prev\<rparr>;
         P2 = \<lparr>degree = degree P3 - g / 3, position = position P3 - (g / 3) * s_next\<rparr>
     in [P0, P1, P2, P3])"

definition spec_inserted :: "DistortionPoint list \<Rightarrow> int \<Rightarrow> nat \<Rightarrow> nat \<Rightarrow> DistortionPoint" where
  "spec_inserted points c i j =
    (case spec_control_points points i of
       [P0, P1, P2, P3] \<Rightarrow> cubic_bezier P0 P1 P2 P3 (real (j + 1) / real_of_int (c + 1)))"

subsection \<open>The sampled line as the specification words it\<close>

text \<open>
  The value at \<open>d\<close> of the straight line through \<open>points[k]\<close> and \<open>points[k + 1]\<close>:
  the linear interpolation inside the segment, the linear extrapolation along its slope
  outside; and the same with the two axes exchanged. \<open>swap_axes\<close> exchanges the axes of
  one point.
\<close>

definition swap_axes :: "DistortionPoint \<Rightarrow> DistortionPoint" where
  "swap_axes pt = \<lparr>degree = position pt, position = degree pt\<rparr>"

definition interpolate_position :: "DistortionPoint list \<Rightarrow> nat \<Rightarrow> real \<Rightarrow> real" where
  "interpolate_position points k d =
     position (points ! k) + (d - degree (points ! k)) * secant_slope (points ! k) (points ! (k + 1))"

definition interpolate_degree :: "DistortionPoint list \<Rightarrow> nat \<Rightarrow> real \<Rightarrow> real" where
  "interpolate_degree points k p =
     degree (points ! k) +
     (p - position (points ! k)) *
       ((degree (points ! (k + 1)) - degree (points ! k)) /
        (position (points ! (k + 1)) - position (points ! k)))"

subsection \<open>The chromatic correction as the specification words it\<close>

text \<open>
  A point of the reference curve with its position scaled by the offset curve sampled at
  the point's degree: \<open>position * (offsetPercent(degree) / 100 + 1)\<close>.
\<close>

definition chroma_scale :: "DistortionPoint list \<Rightarrow> DistortionPoint \<Rightarrow> DistortionPoint option" where
  "chroma_scale offsetCurve pt =
     map_option (\<lambda>r. pt\<lparr>position := position pt * (r / 100 + 1)\<rparr>)
       (SampleFromPoints offsetCurve (degree pt))"

subsection \<open>Concrete inputs\<close>

text \<open>The green calibration points of the specification's scenario.\<close>

definition scenario_points :: "DistortionPoint list" where
  "scenario_points =
     [\<lparr>degree = 0, position = 0\<rparr>, \<lparr>degree = 10, position = 10\<rparr>,
      \<lparr>degree = 20, position = 22\<rparr>, \<lparr>degree = 30, position = 36\<rparr>]"

text \<open>
  A profile over the scenario's green points whose red and blue offset curves are
  constantly 5 percent.
\<close>

definition scenario_profile :: RadialBezierDistortionProfile where
  "scenario_profile =
    \<lparr>distortions = scenario_points,
     distortionsRed = [\<lparr>degree = 0, position = 5\<rparr>, \<lparr>degree = 30, position = 5\<rparr>],
     distortionsBlue = [\<lparr>degree = 0, position = 5\<rparr>, \<lparr>degree = 30, position = 5\<rparr>],
     inBetweenPoints = 1, resolution = 1000, radialMapSize = 4, halfFov = 0,
     radialMapConversion = 0, radialUVMapR = None, radialUVMapG = None, radialUVMapB = None\<rparr>"

text \<open>
  A profile whose green curve reaches 45 degrees, and a green curve that reaches only 30
  degrees, for a second call of Initialize.
\<close>

definition wide_profile :: RadialBezierDistortionProfile where
  "wide_profile =
    \<lparr>distortions = [\<lparr>degree = 0, position = 0\<rparr>, \<lparr>degree = 45, position = 90\<rparr>],
     distortionsRed = [\<lparr>degree = 0, position = 0\<rparr>, \<lparr>degree = 45, position = 0\<rparr>],
     distortionsBlue = [\<lparr>degree = 0, position = 0\<rparr>, \<lparr>degree = 45, position = 0\<rparr>],
     inBetweenPoints = 1, resolution = 1000, radialMapSize = 4, halfFov = 0,
     radialMapConversion = 0, radialUVMapR = None, radialUVMapG = None, radialUVMapB = None\<rparr>"

definition narrow_points :: "DistortionPoint list" where
  "narrow_points = [\<lparr>degree = 0, position = 0\<rparr>, \<lparr>degree = 30, position = 60\<rparr>]"

text \<open>A profile with radial maps of two entries.\<close>

definition tabled_profile :: RadialBezierDistortionProfile where
  "tabled_profile =
    \<lparr>distortions = [], distortionsRed = [], distortionsBlue = [],
     inBetweenPoints = 0, resolution = 1000, radialMapSize = 2, halfFov = 45,
     radialMapConversion = 2, radialUVMapR = Some [0, 1 / 2], radialUVMapG = Some [0, 1 / 2],
     radialUVMapB = Some [0, 1 / 2]\<rparr>"

text \<open>
  Binary32 inputs: the value of \<^verbatim>\<open>1e-30f\<close>; radial maps of two entries; three points
  whose last two positions are \<^verbatim>\<open>0.3f\<close> and \<^verbatim>\<open>1.4f\<close>; two points whose degrees
  \<open>2^24\<close> and \<open>2^24 + 2\<close> are neighbours in binary32.
\<close>

definition tiny_u :: fp where "tiny_u = Finite (332307 / 2 ^ 118)"

definition maps32 :: RadialMaps32 where
  "maps32 = \<lparr>radialMapSize32 = 2, radialMapConversion32 = Finite 2,
     radialUVMapR32 = Some [Finite 0, Finite (1 / 2)],
     radialUVMapG32 = Some [Finite 0, Finite (1 / 2)],
     radialUVMapB32 = Some [Finite 0, Finite (1 / 2)]\<rparr>"

definition knot_points32 :: "DistortionPoint32 list" where
  "knot_points32 =
    [\<lparr>degree32 = Finite 0, position32 = Finite 0\<rparr>,
     \<lparr>degree32 = Finite 10, position32 = Finite (5033165 / 2 ^ 24)\<rparr>,
     \<lparr>degree32 = Finite 20, position32 = Finite (11744051 / 2 ^ 23)\<rparr>]"


section \<open>Properties of SmoothPoints\<close>

lemma SmoothPoints_loop_concat:
  "SmoothPoints_loop points c i outPoints =
     outPoints @ concat (map (SmoothSegment points c) [i..<length points - 1])"
proof (induction points c i outPoints rule: SmoothPoints_loop.induct)
  case (1 points c i outPoints)
  show ?case
  proof (cases "i < length points - 1")
    case True
    then have "[i..<length points - 1] = i # [i + 1..<length points - 1]"
      by (simp add: upt_conv_Cons)
    with True "1.IH" show ?thesis
      by (subst SmoothPoints_loop.simps) simp
  next
    case False
    then show ?thesis
      by (subst SmoothPoints_loop.simps) simp
  qed
qed

lemma length_SmoothSegment [simp]: "length (SmoothSegment points c i) = Suc (nat c)"
  by (simp add: SmoothSegment_def Let_def)

lemma SmoothSegment_0 [simp]: "SmoothSegment points c i ! 0 = points ! i"
  by (simp add: SmoothSegment_def Let_def)

lemma hd_SmoothSegment [simp]: "hd (SmoothSegment points c i) = points ! i"
  by (simp add: SmoothSegment_def Let_def)

text \<open>Blocks of one length, concatenated: where block \<open>i\<close> starts.\<close>

lemma length_concat_uniform:
  "(\<And>i. i < m \<Longrightarrow> length (f i) = k) \<Longrightarrow> length (concat (map f [0..<m])) = m * k"
  by (induction m) simp_all

lemma drop_concat_uniform:
  assumes "\<And>i. i < m \<Longrightarrow> length (f i) = k" and "i \<le> m"
  shows "drop (i * k) (concat (map f [0..<m])) = concat (map f [i..<m])"
  using assms
proof (induction m)
  case 0
  then show ?case by simp
next
  case (Suc m)
  have len: "length (concat (map f [0..<m])) = m * k"
    using Suc.prems(1) by (simp add: length_concat_uniform)
  show ?case
  proof (cases "i = Suc m")
    case True
    then show ?thesis using len Suc.prems(1) by simp
  next
    case False
    with Suc.prems have i: "i \<le> m" by simp
    then have "i * k \<le> m * k" by simp
    moreover have "drop (i * k) (concat (map f [0..<m])) = concat (map f [i..<m])"
      using Suc.IH Suc.prems(1) i by simp
    ultimately show ?thesis using len i by simp
  qed
qed

lemma SmoothPoints_Some:
  "points \<noteq> [] \<Longrightarrow>
     SmoothPoints points c =
       Some (concat (map (SmoothSegment points c) [0..<length points - 1]) @ [last points])"
  by (simp add: SmoothPoints_def SmoothPoints_loop_concat last_conv_nth)

lemma length_SmoothPoints:
  assumes "SmoothPoints points c = Some out"
  shows "length out = (length points - 1) * Suc (nat c) + 1"
proof -
  from assms have ne: "points \<noteq> []" by (auto simp: SmoothPoints_def split: if_splits)
  with assms have "out = concat (map (SmoothSegment points c) [0..<length points - 1]) @ [last points]"
    by (simp add: SmoothPoints_Some)
  then show ?thesis
    by (simp add: length_concat_uniform [where k = "Suc (nat c)"])
qed

lemma SmoothPoints_drop_block:
  assumes out: "SmoothPoints points c = Some out" and i: "i < length points - 1"
  shows "drop (i * Suc (nat c)) out =
           SmoothSegment points c i @
           concat (map (SmoothSegment points c) [i + 1..<length points - 1]) @ [last points]"
proof -
  let ?k = "Suc (nat c)" and ?m = "length points - 1"
  from out have ne: "points \<noteq> []" by (auto simp: SmoothPoints_def split: if_splits)
  with out have o: "out = concat (map (SmoothSegment points c) [0..<?m]) @ [last points]"
    by (simp add: SmoothPoints_Some)
  have len: "length (concat (map (SmoothSegment points c) [0..<?m])) = ?m * ?k"
    by (simp add: length_concat_uniform [where k = ?k])
  have le: "i * ?k \<le> ?m * ?k" using i by (intro mult_le_mono1) simp
  have "drop (i * ?k) (concat (map (SmoothSegment points c) [0..<?m])) =
          concat (map (SmoothSegment points c) [i..<?m])"
    using i by (intro drop_concat_uniform) simp_all
  moreover have "[i..<?m] = i # [i + 1..<?m]" using i by (simp add: upt_conv_Cons)
  ultimately show ?thesis
    using o len le by simp
qed

lemma SmoothPoints_rest_hd:
  assumes ne: "points \<noteq> []" and i: "i \<le> length points - 1"
  shows "hd (concat (map (SmoothSegment points c) [i..<length points - 1]) @ [last points]) = points ! i"
proof (cases "i < length points - 1")
  case True
  then have "[i..<length points - 1] = i # [i + 1..<length points - 1]"
    by (simp add: upt_conv_Cons)
  then show ?thesis by (simp add: SmoothSegment_def Let_def)
next
  case False
  with i have "i = length points - 1" by simp
  then show ?thesis using ne by (simp add: last_conv_nth)
qed

lemma SmoothPoints_nth_original:
  assumes out: "SmoothPoints points c = Some out" and i: "i < length points"
  shows "i * Suc (nat c) < length out \<and> out ! (i * Suc (nat c)) = points ! i"
proof -
  let ?k = "Suc (nat c)" and ?m = "length points - 1"
  from out have ne: "points \<noteq> []" by (auto simp: SmoothPoints_def split: if_splits)
  with out have o: "out = concat (map (SmoothSegment points c) [0..<?m]) @ [last points]"
    by (simp add: SmoothPoints_Some)
  have len: "length (concat (map (SmoothSegment points c) [0..<?m])) = ?m * ?k"
    by (simp add: length_concat_uniform [where k = ?k])
  from i have le: "i \<le> ?m" by simp
  then have le': "i * ?k \<le> ?m * ?k" by (rule mult_le_mono1)
  have lt: "i * ?k < length out" using o len le' by simp
  have "drop (i * ?k) out = concat (map (SmoothSegment points c) [i..<?m]) @ [last points]"
    using o len le' drop_concat_uniform [of ?m "SmoothSegment points c" ?k i] le by simp
  then have "hd (drop (i * ?k) out) = points ! i"
    using SmoothPoints_rest_hd [OF ne le] by simp
  then show ?thesis using lt by (simp add: hd_drop_conv_nth)
qed

lemma SmoothPoints_take_block:
  assumes out: "SmoothPoints points c = Some out" and i: "i < length points - 1"
  shows "take (nat c + 2) (drop (i * Suc (nat c)) out) =
           SmoothSegment points c i @ [points ! (i + 1)]"
proof -
  from out have ne: "points \<noteq> []" by (auto simp: SmoothPoints_def split: if_splits)
  let ?rest = "concat (map (SmoothSegment points c) [i + 1..<length points - 1]) @ [last points]"
  have "?rest \<noteq> []" by simp
  then have "take 1 ?rest = [hd ?rest]" by (cases ?rest) simp_all
  also have "hd ?rest = points ! (i + 1)"
    using SmoothPoints_rest_hd [OF ne, of "i + 1" c] i by simp
  finally have t1: "take 1 ?rest = [points ! (i + 1)]" .
  have "take (nat c + 2) (drop (i * Suc (nat c)) out) =
          take (nat c + 2) (SmoothSegment points c i @ ?rest)"
    using SmoothPoints_drop_block [OF out i] by simp
  also have "\<dots> = SmoothSegment points c i @ take 1 ?rest"
    by (simp del: append_assoc)
  finally show ?thesis using t1 by simp
qed

text \<open>
  Claim C5. For a sequence of \<open>n \<ge> 2\<close> points and an insertion count \<open>c \<ge> 0\<close>,
  \<^verbatim>\<open>SmoothPoints\<close> returns \<open>n + (n - 1) * c\<close> points, among them every input point, and
  its first and last points are the first and last input points, unchanged. On the four
  points of the scenario with count 1 the result has 7 points.
\<close>

theorem SmoothPoints_size_and_endpoints:
  assumes n: "2 \<le> length points" and c: "0 \<le> c"
  shows "\<exists>out. SmoothPoints points c = Some out \<and>
           int (length out) = int (length points) + (int (length points) - 1) * c \<and>
           set points \<subseteq> set out \<and>
           hd out = hd points \<and> last out = last points"
proof -
  from n have ne: "points \<noteq> []" by auto
  define out where "out = concat (map (SmoothSegment points c) [0..<length points - 1]) @ [last points]"
  have out: "SmoothPoints points c = Some out"
    using ne by (simp add: SmoothPoints_Some out_def)
  have "length out = (length points - 1) * Suc (nat c) + 1"
    by (rule length_SmoothPoints [OF out])
  then have "int (length out) = int (length points - 1) * int (Suc (nat c)) + 1"
    by (simp only: of_nat_add of_nat_mult of_nat_1)
  moreover have "int (length points - 1) = int (length points) - 1"
    using n by (simp add: of_nat_diff)
  moreover have "int (Suc (nat c)) = 1 + c"
    using c by simp
  ultimately have "int (length out) = (int (length points) - 1) * (1 + c) + 1"
    by simp
  then have len: "int (length out) = int (length points) + (int (length points) - 1) * c"
    by (simp add: algebra_simps)
  have sub: "set points \<subseteq> set out"
  proof
    fix p assume "p \<in> set points"
    then obtain i where i: "i < length points" "points ! i = p"
      by (auto simp: in_set_conv_nth)
    from SmoothPoints_nth_original [OF out i(1)] i(2) show "p \<in> set out"
      by (metis nth_mem)
  qed
  have "out ! 0 = points ! 0"
    using SmoothPoints_nth_original [OF out, of 0] ne by simp
  moreover have "out \<noteq> []" by (simp add: out_def)
  ultimately have h: "hd out = hd points"
    using ne by (simp add: hd_conv_nth)
  have l: "last out = last points" by (simp add: out_def)
  from out len sub h l show ?thesis by blast
qed

theorem SmoothPoints_size_and_endpoints_witness:
  "2 \<le> length scenario_points \<and> (0::int) \<le> 1 \<and>
   (\<exists>out. SmoothPoints scenario_points 1 = Some out \<and> length out = 7 \<and>
      hd out = \<lparr>degree = 0, position = 0\<rparr> \<and> last out = \<lparr>degree = 30, position = 36\<rparr>)"
  using SmoothPoints_size_and_endpoints [of scenario_points 1]
  by (auto simp: scenario_points_def)


lemma BezierPoint_cubic_bezier:
  "BezierPoint t [P0, P1, P2, P3] = cubic_bezier P0 P1 P2 P3 t"
  unfolding BezierPoint_def cubic_bezier_def Let_def
  by (simp add: numeral_2_eq_2 numeral_3_eq_3 power2_eq_square)

lemma SmoothControlPoints_spec:
  assumes "i < length points - 1"
  shows "SmoothControlPoints points i = spec_control_points points i"
proof -
  from assms have e: "(length points - 2 \<le> i) = (i + 1 = length points - 1)" by auto
  show ?thesis
    unfolding SmoothControlPoints_def spec_control_points_def secant_slope_def Let_def e
    by simp
qed

lemma BezierPoint_spec_inserted:
  assumes "i < length points - 1"
  shows "BezierPoint (real (j + 1) / real_of_int (c + 1)) (SmoothControlPoints points i) =
           spec_inserted points c i j"
  unfolding SmoothControlPoints_spec [OF assms] spec_inserted_def
  by (simp add: spec_control_points_def Let_def BezierPoint_cubic_bezier del: of_nat_add of_int_add)

lemma SmoothSegment_spec:
  assumes "i < length points - 1"
  shows "SmoothSegment points c i = points ! i # map (spec_inserted points c i) [0..<nat c]"
  unfolding SmoothSegment_def Let_def BezierPoint_spec_inserted [OF assms] ..

text \<open>
  Claim C3. For \<open>n \<ge> 2\<close> points and a count \<open>c \<ge> 0\<close>, the output of \<^verbatim>\<open>SmoothPoints\<close>
  is made of \<open>n - 1\<close> blocks of \<open>c + 1\<close> points and the last point; the block of the
  pair \<open>points[i]\<close>, \<open>points[i + 1]\<close> is \<open>points[i]\<close> followed by exactly the \<open>c\<close>
  points of the specification's Bezier curve at \<open>t = (j + 1) / (c + 1)\<close>, \<open>j = 0..c-1\<close>,
  and the point after the block is \<open>points[i + 1]\<close>. The source and the
  specification build their points from the same quotients, so the statement needs no
  hypothesis on the degrees.
\<close>

theorem SmoothPoints_inserts_bezier:
  assumes n: "2 \<le> length points" and c: "0 \<le> c"
  shows "\<exists>out. SmoothPoints points c = Some out \<and>
           length out = (length points - 1) * (nat c + 1) + 1 \<and>
           (\<forall>i < length points - 1.
              take (nat c + 2) (drop (i * (nat c + 1)) out) =
                points ! i # map (spec_inserted points c i) [0..<nat c] @ [points ! (i + 1)])"
proof -
  from n have ne: "points \<noteq> []" by auto
  then obtain out where out: "SmoothPoints points c = Some out"
    by (simp add: SmoothPoints_Some)
  have "length out = (length points - 1) * (nat c + 1) + 1"
    using length_SmoothPoints [OF out] by simp
  moreover have "take (nat c + 2) (drop (i * (nat c + 1)) out) =
      points ! i # map (spec_inserted points c i) [0..<nat c] @ [points ! (i + 1)]"
    if "i < length points - 1" for i
    using SmoothPoints_take_block [OF out that] SmoothSegment_spec [OF that, of c] by simp
  ultimately show ?thesis using out by blast
qed

theorem SmoothPoints_inserts_bezier_witness:
  "2 \<le> length scenario_points \<and> (0::int) \<le> 1 \<and>
   (\<exists>out. SmoothPoints scenario_points 1 = Some out \<and> length out = 7 \<and>
      take 3 (drop 2 out) =
        [\<lparr>degree = 10, position = 10\<rparr>, \<lparr>degree = 15, position = 63 / 4\<rparr>,
         \<lparr>degree = 20, position = 22\<rparr>])"
proof -
  have s: "spec_inserted scenario_points 1 1 0 = \<lparr>degree = 15, position = 63 / 4\<rparr>"
    by (simp add: spec_inserted_def spec_control_points_def scenario_points_def Let_def
        cubic_bezier_def secant_slope_def numeral_2_eq_2 numeral_3_eq_3)
  from SmoothPoints_inserts_bezier [of scenario_points 1]
  obtain out where out: "SmoothPoints scenario_points 1 = Some out"
    and len: "length out = (length scenario_points - 1) * (nat 1 + 1) + 1"
    and blocks: "\<forall>i < length scenario_points - 1.
              take (nat 1 + 2) (drop (i * (nat 1 + 1)) out) =
                scenario_points ! i # map (spec_inserted scenario_points 1 i) [0..<nat 1] @
                [scenario_points ! (i + 1)]"
    by (auto simp: scenario_points_def)
  have "1 < length scenario_points - 1" by (simp add: scenario_points_def)
  with blocks have "take (nat 1 + 2) (drop (1 * (nat 1 + 1)) out) =
                scenario_points ! 1 # map (spec_inserted scenario_points 1 1) [0..<nat 1] @
                [scenario_points ! (1 + 1)]" by blast
  then have "take 3 (drop 2 out) =
        [\<lparr>degree = 10, position = 10\<rparr>, \<lparr>degree = 15, position = 63 / 4\<rparr>,
         \<lparr>degree = 20, position = 22\<rparr>]"
    using s by (simp add: scenario_points_def numeral_3_eq_3 numeral_2_eq_2)
  moreover have "length out = 7" using len by (simp add: scenario_points_def)
  ultimately show ?thesis using out by (auto simp: scenario_points_def)
qed







section \<open>Properties of the sampling functions\<close>

lemma SampleFromPoints_loop_first:
  assumes "i \<le> k" and "k < length points - 1"
    and "degree (points ! k) \<le> d" and "d \<le> degree (points ! (k + 1))"
    and "\<And>j. i \<le> j \<Longrightarrow> j < k \<Longrightarrow> \<not> (degree (points ! j) \<le> d \<and> d \<le> degree (points ! (j + 1)))"
  shows "SampleFromPoints_loop points d i = Some (interpolate_position points k d)"
  using assms
proof (induction points d i rule: SampleFromPoints_loop.induct)
  case (1 points d i)
  show ?case
  proof (cases "i = k")
    case True
    with "1.prems" show ?thesis
      by (subst SampleFromPoints_loop.simps)
        (simp add: interpolate_position_def secant_slope_def Let_def)
  next
    case False
    with "1.prems" have ik: "i < k" by simp
    then have nb: "\<not> (degree (points ! i) \<le> d \<and> d \<le> degree (points ! (i + 1)))"
      using "1.prems"(5) [of i] by simp
    have "SampleFromPoints_loop points d (i + 1) = Some (interpolate_position points k d)"
      using "1.IH" [OF _ nb] ik "1.prems" by simp
    with nb ik "1.prems"(2) show ?thesis
      by (subst SampleFromPoints_loop.simps) auto
  qed
qed

lemma SampleFromPoints_loop_none:
  assumes "\<And>j. i \<le> j \<Longrightarrow> j < length points - 1 \<Longrightarrow>
             \<not> (degree (points ! j) \<le> d \<and> d \<le> degree (points ! (j + 1)))"
  shows "SampleFromPoints_loop points d i = None"
  using assms
proof (induction points d i rule: SampleFromPoints_loop.induct)
  case (1 points d i)
  show ?case
  proof (cases "i < length points - 1")
    case True
    then have nb: "\<not> (degree (points ! i) \<le> d \<and> d \<le> degree (points ! (i + 1)))"
      using "1.prems" [of i] by simp
    have "SampleFromPoints_loop points d (i + 1) = None"
      using "1.IH" [OF True nb] "1.prems" by simp
    with nb True show ?thesis
      by (subst SampleFromPoints_loop.simps) auto
  next
    case False
    then show ?thesis
      by (subst SampleFromPoints_loop.simps) simp
  qed
qed

lemma swap_axes_sel [simp]:
  "degree (swap_axes pt) = position pt" "position (swap_axes pt) = degree pt"
  by (simp_all add: swap_axes_def)

lemma SampleFromPointsInverse_loop_swap:
  "SampleFromPointsInverse_loop points p i = SampleFromPoints_loop (map swap_axes points) p i"
proof (induction points p i rule: SampleFromPointsInverse_loop.induct)
  case (1 points p i)
  show ?case
  proof (cases "i < length points - 1")
    case True
    then have "i < length points" "i + 1 < length points" by simp_all
    then have "map swap_axes points ! i = swap_axes (points ! i)"
      "map swap_axes points ! (i + 1) = swap_axes (points ! (i + 1))"
      by simp_all
    with True "1.IH" show ?thesis
      by (subst SampleFromPointsInverse_loop.simps, subst SampleFromPoints_loop.simps)
        (simp add: Let_def)
  next
    case False
    then show ?thesis
      by (subst SampleFromPointsInverse_loop.simps, subst SampleFromPoints_loop.simps) simp
  qed
qed

lemma SampleFromPointsInverse_swap:
  "SampleFromPointsInverse points p = SampleFromPoints (map swap_axes points) p"
proof (cases "length points < 2")
  case True
  then show ?thesis
    by (cases points)
      (auto simp: SampleFromPointsInverse_def SampleFromPoints_def
        SampleFromPointsInverse_loop_swap split: option.splits)
next
  case False
  then have n: "2 \<le> length points" by simp
  then have "length points - 2 < length points" "length points - 2 + 1 < length points"
    "0 < length points" by auto
  then have "map swap_axes points ! (length points - 2) = swap_axes (points ! (length points - 2))"
    "map swap_axes points ! (length points - 2 + 1) = swap_axes (points ! (length points - 2 + 1))"
    "map swap_axes points ! 0 = swap_axes (points ! 0)"
    by (simp_all only: nth_map)
  moreover from n have "points \<noteq> []" by auto
  ultimately show ?thesis
    using False
    unfolding SampleFromPointsInverse_def SampleFromPoints_def SampleFromPointsInverse_loop_swap
    by (simp add: Let_def split: option.splits)
qed

lemma degree_strict_mono:
  assumes "sorted_wrt (<) (map degree points)" and "i < j" and "j < length points"
  shows "degree (points ! i) < degree (points ! j)"
proof -
  have "map degree points ! i < map degree points ! j"
    using sorted_wrt_nth_less [OF assms(1), of i j] assms(2,3) by simp
  with assms show ?thesis by simp
qed

lemma degree_mono:
  assumes "sorted_wrt (<) (map degree points)" and "i \<le> j" and "j < length points"
  shows "degree (points ! i) \<le> degree (points ! j)"
proof (cases "i = j")
  case True
  then show ?thesis by simp
next
  case False
  with assms(2) have "i < j" by simp
  from degree_strict_mono [OF assms(1) this assms(3)] show ?thesis by simp
qed

lemma SampleFromPoints_below:
  assumes inc: "sorted_wrt (<) (map degree points)" and ne: "points \<noteq> []"
    and d: "d < degree (points ! 0)"
  shows "SampleFromPoints points d = Some (position (points ! 0))"
proof -
  have "\<not> (degree (points ! j) \<le> d \<and> d \<le> degree (points ! (j + 1)))"
    if "j < length points - 1" for j
  proof -
    from that have "j < length points" by simp
    from degree_mono [OF inc _ this, of 0] d show ?thesis by simp
  qed
  then have "SampleFromPoints_loop points d 0 = None"
    by (intro SampleFromPoints_loop_none) simp
  with ne d show ?thesis by (simp add: SampleFromPoints_def)
qed

lemma SampleFromPoints_above:
  assumes inc: "sorted_wrt (<) (map degree points)" and n: "2 \<le> length points"
    and d: "degree (points ! (length points - 1)) < d"
  shows "SampleFromPoints points d = Some (interpolate_position points (length points - 2) d)"
proof -
  from n have ne: "points \<noteq> []" by auto
  from n have last: "length points - 1 < length points" by simp
  have "\<not> (degree (points ! j) \<le> d \<and> d \<le> degree (points ! (j + 1)))"
    if "j < length points - 1" for j
  proof -
    from that have "j + 1 \<le> length points - 1" by simp
    from degree_mono [OF inc this last] d show ?thesis by simp
  qed
  then have none: "SampleFromPoints_loop points d 0 = None"
    by (intro SampleFromPoints_loop_none) simp
  have "degree (points ! 0) \<le> degree (points ! (length points - 1))"
    using degree_mono [OF inc _ last, of 0] by simp
  with d have "\<not> d < degree (points ! 0)" by simp
  with none ne n show ?thesis
    by (simp add: SampleFromPoints_def interpolate_position_def secant_slope_def lerp_def Let_def)
qed

lemma SampleFromPoints_bracket:
  assumes inc: "sorted_wrt (<) (map degree points)" and k: "k < length points - 1"
    and lo: "degree (points ! k) \<le> d" and hi: "d \<le> degree (points ! (k + 1))"
  shows "SampleFromPoints points d = Some (interpolate_position points k d)"
proof -
  from k have ne: "points \<noteq> []" by auto
  from k have kn: "k < length points" by simp
  have "SampleFromPoints_loop points d 0 = Some (interpolate_position points k d)"
  proof (cases "d = degree (points ! k) \<and> 0 < k")
    case False
    have "\<not> (degree (points ! j) \<le> d \<and> d \<le> degree (points ! (j + 1)))" if "j < k" for j
    proof -
      from that have "j + 1 \<le> k" by simp
      from degree_mono [OF inc this kn]
      have "degree (points ! (j + 1)) \<le> degree (points ! k)" .
      moreover from that False lo have "degree (points ! k) < d" by auto
      ultimately show ?thesis by simp
    qed
    then show ?thesis
      using k lo hi by (intro SampleFromPoints_loop_first) simp_all
  next
    case True
    then obtain k' where k': "k = Suc k'" by (cases k) auto
    from True have dk: "d = degree (points ! k)" by simp
    have lt: "degree (points ! k') < degree (points ! k)"
      using degree_strict_mono [OF inc _ kn, of k'] k' by simp
    have "\<not> (degree (points ! j) \<le> d \<and> d \<le> degree (points ! (j + 1)))" if "j < k'" for j
    proof -
      from that k' have "j + 1 < k" by simp
      from degree_strict_mono [OF inc this kn] dk show ?thesis by simp
    qed
    moreover have "k' < length points - 1" using k k' by simp
    moreover have "degree (points ! k') \<le> d" "d \<le> degree (points ! (k' + 1))"
      using lt dk k' by simp_all
    ultimately have "SampleFromPoints_loop points d 0 = Some (interpolate_position points k' d)"
      by (intro SampleFromPoints_loop_first) simp_all
    moreover have "interpolate_position points k' d = interpolate_position points k d"
      using lt by (simp add: interpolate_position_def secant_slope_def dk k')
    ultimately show ?thesis by simp
  qed
  with ne show ?thesis by (simp add: SampleFromPoints_def)
qed

lemma swap_axes_swap_axes [simp]: "swap_axes (swap_axes pt) = pt"
  by (simp add: swap_axes_def)

lemma sorted_degree_swap:
  "sorted_wrt (<) (map degree (map swap_axes points)) = sorted_wrt (<) (map position points)"
  by (simp add: comp_def)

lemma nth_swap_axes: "k < length points \<Longrightarrow> map swap_axes points ! k = swap_axes (points ! k)"
  by simp

lemma interpolate_position_swap:
  assumes "k < length points - 1"
  shows "interpolate_position (map swap_axes points) k p = interpolate_degree points k p"
proof -
  from assms have "k < length points" "k + 1 < length points" by simp_all
  then have "map swap_axes points ! k = swap_axes (points ! k)"
    "map swap_axes points ! (k + 1) = swap_axes (points ! (k + 1))"
    by (simp_all only: nth_map)
  then show ?thesis
    by (simp add: interpolate_position_def interpolate_degree_def secant_slope_def)
qed

lemma SampleFromPointsInverse_below:
  assumes inc: "sorted_wrt (<) (map position points)" and ne: "points \<noteq> []"
    and p: "p < position (points ! 0)"
  shows "SampleFromPointsInverse points p = Some (degree (points ! 0))"
proof -
  from ne have 0: "map swap_axes points ! 0 = swap_axes (points ! 0)"
    by (intro nth_swap_axes) simp
  have "SampleFromPoints (map swap_axes points) p = Some (position (map swap_axes points ! 0))"
    using inc ne p unfolding sorted_degree_swap [symmetric]
    by (intro SampleFromPoints_below) (simp_all add: 0)
  then show ?thesis by (simp add: SampleFromPointsInverse_swap 0)
qed

lemma SampleFromPointsInverse_above:
  assumes inc: "sorted_wrt (<) (map position points)" and n: "2 \<le> length points"
    and p: "position (points ! (length points - 1)) < p"
  shows "SampleFromPointsInverse points p = Some (interpolate_degree points (length points - 2) p)"
proof -
  from n have k: "length points - 2 < length points - 1" by simp
  from n have l: "map swap_axes points ! (length points - 1) = swap_axes (points ! (length points - 1))"
    by (intro nth_swap_axes) simp
  have "SampleFromPoints (map swap_axes points) p =
          Some (interpolate_position (map swap_axes points) (length (map swap_axes points) - 2) p)"
    using inc n p unfolding sorted_degree_swap [symmetric]
    by (intro SampleFromPoints_above) (simp_all add: l)
  then show ?thesis
    by (simp add: SampleFromPointsInverse_swap interpolate_position_swap [OF k])
qed

lemma SampleFromPointsInverse_bracket:
  assumes inc: "sorted_wrt (<) (map position points)" and k: "k < length points - 1"
    and lo: "position (points ! k) \<le> p" and hi: "p \<le> position (points ! (k + 1))"
  shows "SampleFromPointsInverse points p = Some (interpolate_degree points k p)"
proof -
  from k have "k < length points" "k + 1 < length points" by simp_all
  then have nth: "map swap_axes points ! k = swap_axes (points ! k)"
    "map swap_axes points ! (k + 1) = swap_axes (points ! (k + 1))"
    by (simp_all only: nth_map)
  have "SampleFromPoints (map swap_axes points) p =
          Some (interpolate_position (map swap_axes points) k p)"
    using inc k lo hi unfolding sorted_degree_swap [symmetric]
    by (intro SampleFromPoints_bracket) (simp_all add: nth)
  then show ?thesis
    by (simp add: SampleFromPointsInverse_swap interpolate_position_swap [OF k])
qed

text \<open>
  Claim C6. On at least two points, strictly increasing on both axes:
  \<^verbatim>\<open>SampleFromPoints\<close> returns the first position for a degree below the first degree,
  the linear interpolation of a segment whose degrees bracket the degree (bounds
  included), and the extrapolation along the last segment for a degree above the last
  degree; \<^verbatim>\<open>SampleFromPointsInverse\<close> does the same with the axes exchanged.
\<close>

theorem SampleFromPoints_clamp_interpolate_extrapolate:
  assumes n: "2 \<le> length points"
    and incd: "sorted_wrt (<) (map degree points)"
    and incp: "sorted_wrt (<) (map position points)"
  shows "(d < degree (hd points) \<longrightarrow> SampleFromPoints points d = Some (position (hd points))) \<and>
    (\<forall>k. k < length points - 1 \<and> degree (points ! k) \<le> d \<and> d \<le> degree (points ! (k + 1)) \<longrightarrow>
       SampleFromPoints points d = Some (interpolate_position points k d)) \<and>
    (degree (last points) < d \<longrightarrow>
       SampleFromPoints points d = Some (interpolate_position points (length points - 2) d)) \<and>
    (p < position (hd points) \<longrightarrow> SampleFromPointsInverse points p = Some (degree (hd points))) \<and>
    (\<forall>k. k < length points - 1 \<and> position (points ! k) \<le> p \<and> p \<le> position (points ! (k + 1)) \<longrightarrow>
       SampleFromPointsInverse points p = Some (interpolate_degree points k p)) \<and>
    (position (last points) < p \<longrightarrow>
       SampleFromPointsInverse points p = Some (interpolate_degree points (length points - 2) p))"
proof -
  from n have ne: "points \<noteq> []" by auto
  then have hd: "hd points = points ! 0" and last: "last points = points ! (length points - 1)"
    by (simp_all add: hd_conv_nth last_conv_nth)
  show ?thesis
    unfolding hd last
    using SampleFromPoints_below [OF incd ne] SampleFromPoints_above [OF incd n]
      SampleFromPoints_bracket [OF incd]
      SampleFromPointsInverse_below [OF incp ne] SampleFromPointsInverse_above [OF incp n]
      SampleFromPointsInverse_bracket [OF incp]
    by blast
qed

theorem SampleFromPoints_clamp_interpolate_extrapolate_witness:
  "2 \<le> length scenario_points \<and>
   sorted_wrt (<) (map degree scenario_points) \<and>
   sorted_wrt (<) (map position scenario_points) \<and>
   SampleFromPoints scenario_points (- 1) = Some 0 \<and>
   SampleFromPoints scenario_points 15 = Some 16 \<and>
   SampleFromPoints scenario_points 40 = Some 50 \<and>
   SampleFromPointsInverse scenario_points (- 1) = Some 0 \<and>
   SampleFromPointsInverse scenario_points 16 = Some 15 \<and>
   SampleFromPointsInverse scenario_points 50 = Some 40"
proof -
  have h: "2 \<le> length scenario_points" "sorted_wrt (<) (map degree scenario_points)"
    "sorted_wrt (<) (map position scenario_points)"
    by (simp_all add: scenario_points_def)
  have v: "interpolate_position scenario_points 1 15 = 16"
    "interpolate_position scenario_points 2 40 = 50"
    "interpolate_degree scenario_points 1 16 = 15"
    "interpolate_degree scenario_points 2 50 = 40"
    by (simp_all add: interpolate_position_def interpolate_degree_def secant_slope_def
        scenario_points_def numeral_2_eq_2)
  have k: "(1::nat) < length scenario_points - 1" "length scenario_points - 2 = 2"
    "hd scenario_points = \<lparr>degree = 0, position = 0\<rparr>"
    "last scenario_points = \<lparr>degree = 30, position = 36\<rparr>"
    "scenario_points ! 1 = \<lparr>degree = 10, position = 10\<rparr>"
    "scenario_points ! (1 + 1) = \<lparr>degree = 20, position = 22\<rparr>"
    by (simp_all add: scenario_points_def numeral_2_eq_2)
  from SampleFromPoints_clamp_interpolate_extrapolate [OF h, of "- 1" "- 1"]
  have "SampleFromPoints scenario_points (- 1) = Some 0"
    "SampleFromPointsInverse scenario_points (- 1) = Some 0"
    by (simp_all add: k)
  moreover from SampleFromPoints_clamp_interpolate_extrapolate [OF h, of 15 16]
  have "SampleFromPoints scenario_points 15 = Some (interpolate_position scenario_points 1 15)"
    "SampleFromPointsInverse scenario_points 16 = Some (interpolate_degree scenario_points 1 16)"
    using k by auto
  moreover from SampleFromPoints_clamp_interpolate_extrapolate [OF h, of 40 50]
  have "SampleFromPoints scenario_points 40 = Some (interpolate_position scenario_points 2 40)"
    "SampleFromPointsInverse scenario_points 50 = Some (interpolate_degree scenario_points 2 50)"
    by (simp_all add: k)
  ultimately show ?thesis using h v by simp
qed

text \<open>
  Over exact reals, sampling at the degree of any point of a sequence with strictly
  increasing degrees returns that point's position.
\<close>

lemma SampleFromPoints_at_knot:
  assumes n: "2 \<le> length points"
    and inc: "sorted_wrt (<) (map degree points)"
    and i: "i < length points"
  shows "SampleFromPoints points (degree (points ! i)) = Some (position (points ! i))"
proof (cases "i < length points - 1")
  case True
  have "degree (points ! i) \<le> degree (points ! (i + 1))"
    using degree_mono [OF inc, of i "i + 1"] True by simp
  from SampleFromPoints_bracket [OF inc True _ this, of ]
  show ?thesis by (simp add: interpolate_position_def)
next
  case False
  define k where "k = length points - 2"
  from False i n have ik: "i = k + 1" and k: "k < length points - 1"
    by (simp_all add: k_def)
  have lt: "degree (points ! k) < degree (points ! (k + 1))"
    using degree_strict_mono [OF inc, of k "k + 1"] k by simp
  then have "degree (points ! k) \<le> degree (points ! (k + 1))" by simp
  from SampleFromPoints_bracket [OF inc k this]
  show ?thesis using lt by (simp add: ik interpolate_position_def secant_slope_def)
qed

lemma bracket_exists:
  assumes "0 < m" and "degree (points ! 0) \<le> d" and "d \<le> degree (points ! m)"
  shows "\<exists>k<m. degree (points ! k) \<le> d \<and> d \<le> degree (points ! (k + 1))"
  using assms
proof (induction m)
  case 0
  then show ?case by simp
next
  case (Suc m)
  show ?case
  proof (cases "0 < m \<and> d \<le> degree (points ! m)")
    case True
    with Suc.IH Suc.prems obtain k where "k < m"
      "degree (points ! k) \<le> d \<and> d \<le> degree (points ! (k + 1))" by blast
    then show ?thesis by (intro exI [of _ k]) simp
  next
    case False
    with Suc.prems have "degree (points ! m) \<le> d" by (cases "m = 0") auto
    with Suc.prems show ?thesis by (intro exI [of _ m]) simp
  qed
qed

lemma interpolate_round_trip:
  assumes dd: "degree (points ! k) < degree (points ! (k + 1))"
    and pp: "position (points ! k) < position (points ! (k + 1))"
    and lo: "degree (points ! k) \<le> d" and hi: "d \<le> degree (points ! (k + 1))"
  shows "position (points ! k) \<le> interpolate_position points k d"
    and "interpolate_position points k d \<le> position (points ! (k + 1))"
    and "interpolate_degree points k (interpolate_position points k d) = d"
proof -
  define dg where "dg = degree (points ! (k + 1)) - degree (points ! k)"
  define dp where "dp = position (points ! (k + 1)) - position (points ! k)"
  define e where "e = d - degree (points ! k)"
  have dg: "0 < dg" and dp: "0 < dp" and e: "0 \<le> e" "e \<le> dg"
    using dd pp lo hi by (simp_all add: dg_def dp_def e_def)
  have ip: "interpolate_position points k d = position (points ! k) + e * (dp / dg)"
    by (simp add: interpolate_position_def secant_slope_def dg_def dp_def e_def)
  have "0 \<le> e * (dp / dg)" using e dg dp by simp
  then show "position (points ! k) \<le> interpolate_position points k d"
    by (simp add: ip)
  have "e * (dp / dg) \<le> dg * (dp / dg)"
    using e dg dp by (intro mult_right_mono) simp_all
  also have "\<dots> = dp" using dg by simp
  finally show "interpolate_position points k d \<le> position (points ! (k + 1))"
    by (simp add: ip dp_def)
  have "interpolate_degree points k (interpolate_position points k d) =
          degree (points ! k) + (e * (dp / dg)) * (dg / dp)"
    unfolding ip by (simp add: interpolate_degree_def dg_def dp_def)
  also have "(e * (dp / dg)) * (dg / dp) = e"
    using dg dp by simp
  finally show "interpolate_degree points k (interpolate_position points k d) = d"
    by (simp add: e_def)
qed

lemma position_strict_mono:
  assumes "sorted_wrt (<) (map position points)" and "i < j" and "j < length points"
  shows "position (points ! i) < position (points ! j)"
proof -
  have "map position points ! i < map position points ! j"
    using sorted_wrt_nth_less [OF assms(1), of i j] assms(2,3) by simp
  with assms show ?thesis by simp
qed

lemma sample_round_trip:
  assumes n: "2 \<le> length points"
    and incd: "sorted_wrt (<) (map degree points)"
    and incp: "sorted_wrt (<) (map position points)"
    and lo: "degree (points ! 0) \<le> d" and hi: "d \<le> degree (points ! (length points - 1))"
  shows "\<exists>p. SampleFromPoints points d = Some p \<and> SampleFromPointsInverse points p = Some d"
proof -
  from n have "0 < length points - 1" by simp
  from bracket_exists [OF this lo hi] obtain k where k: "k < length points - 1"
    and b: "degree (points ! k) \<le> d" "d \<le> degree (points ! (k + 1))" by blast
  from k have k1: "k + 1 < length points" by simp
  have dd: "degree (points ! k) < degree (points ! (k + 1))"
    using degree_strict_mono [OF incd _ k1, of k] by simp
  have pp: "position (points ! k) < position (points ! (k + 1))"
    using position_strict_mono [OF incp _ k1, of k] by simp
  note rt = interpolate_round_trip [OF dd pp b]
  have "SampleFromPoints points d = Some (interpolate_position points k d)"
    by (rule SampleFromPoints_bracket [OF incd k b])
  moreover have "SampleFromPointsInverse points (interpolate_position points k d) = Some d"
    using SampleFromPointsInverse_bracket [OF incp k rt(1) rt(2)] rt(3) by simp
  ultimately show ?thesis by blast
qed

lemma sample_round_trip_inverse:
  assumes n: "2 \<le> length points"
    and incd: "sorted_wrt (<) (map degree points)"
    and incp: "sorted_wrt (<) (map position points)"
    and lo: "position (points ! 0) \<le> p" and hi: "p \<le> position (points ! (length points - 1))"
  shows "\<exists>d. SampleFromPointsInverse points p = Some d \<and> SampleFromPoints points d = Some p"
proof -
  let ?sw = "map swap_axes points"
  from n have l: "length points - Suc 0 < length points" "0 < length points"
    by auto
  have "map swap_axes ?sw = points" by (simp add: comp_def)
  then have swb: "SampleFromPointsInverse ?sw d = SampleFromPoints points d" for d
    by (simp add: SampleFromPointsInverse_swap)
  have "sorted_wrt (<) (map position ?sw)" using incd by (simp add: comp_def)
  moreover have "sorted_wrt (<) (map degree ?sw)" using incp by (simp add: comp_def)
  moreover have "2 \<le> length ?sw" using n by simp
  moreover have "degree (?sw ! 0) \<le> p" "p \<le> degree (?sw ! (length ?sw - 1))"
    using lo hi l by simp_all
  ultimately have "\<exists>d. SampleFromPoints ?sw p = Some d \<and> SampleFromPointsInverse ?sw d = Some p"
    by (intro sample_round_trip)
  then show ?thesis
    unfolding swb SampleFromPointsInverse_swap [of points] .
qed

text \<open>
  Claim C9. On at least two points, strictly increasing on both axes: for a degree
  strictly inside the degree range, the inverse sample of the sample is the degree; for
  a position strictly inside the position range, the sample of the inverse sample is the
  position.
\<close>

theorem sample_inverse_round_trip:
  assumes n: "2 \<le> length points"
    and incd: "sorted_wrt (<) (map degree points)"
    and incp: "sorted_wrt (<) (map position points)"
  shows "(degree (hd points) < d \<and> d < degree (last points) \<longrightarrow>
           (\<exists>p. SampleFromPoints points d = Some p \<and> SampleFromPointsInverse points p = Some d)) \<and>
         (position (hd points) < p \<and> p < position (last points) \<longrightarrow>
           (\<exists>d. SampleFromPointsInverse points p = Some d \<and> SampleFromPoints points d = Some p))"
proof -
  from n have ne: "points \<noteq> []" by auto
  then have hd: "hd points = points ! 0" and last: "last points = points ! (length points - 1)"
    by (simp_all add: hd_conv_nth last_conv_nth)
  show ?thesis
    unfolding hd last
    using sample_round_trip [OF n incd incp, of d] sample_round_trip_inverse [OF n incd incp, of p]
    by simp
qed

theorem sample_inverse_round_trip_witness:
  "2 \<le> length scenario_points \<and>
   sorted_wrt (<) (map degree scenario_points) \<and>
   sorted_wrt (<) (map position scenario_points) \<and>
   degree (hd scenario_points) < 15 \<and> 15 < degree (last scenario_points) \<and>
   (\<exists>p. SampleFromPoints scenario_points 15 = Some p \<and>
        SampleFromPointsInverse scenario_points p = Some 15) \<and>
   position (hd scenario_points) < 16 \<and> 16 < position (last scenario_points) \<and>
   (\<exists>d. SampleFromPointsInverse scenario_points 16 = Some d \<and>
        SampleFromPoints scenario_points d = Some 16)"
proof -
  have h: "2 \<le> length scenario_points" "sorted_wrt (<) (map degree scenario_points)"
    "sorted_wrt (<) (map position scenario_points)"
    by (simp_all add: scenario_points_def)
  have r: "degree (hd scenario_points) < 15" "15 < degree (last scenario_points)"
    "position (hd scenario_points) < 16" "16 < position (last scenario_points)"
    by (simp_all add: scenario_points_def)
  from sample_inverse_round_trip [OF h, of 15 16] h r show ?thesis by simp
qed

section \<open>Properties of Initialize\<close>

lemma ChromaticCorrection_loop_result:
  assumes "ChromaticCorrection_loop green redP blueP i (red, blue, hf) = Some (red', blue', hf')"
    and "length red = length green" and "length blue = length green"
  shows "length red' = length green \<and> length blue' = length green \<and>
    (\<forall>j < length green.
       (j < i \<longrightarrow> red' ! j = red ! j \<and> blue' ! j = blue ! j) \<and>
       (i \<le> j \<longrightarrow> chroma_scale redP (red ! j) = Some (red' ! j) \<and>
                  chroma_scale blueP (blue ! j) = Some (blue' ! j))) \<and>
    hf' = foldl max hf (map degree (drop i green))"
  using assms
proof (induction "length green - i" arbitrary: i red blue hf)
  case 0
  then have "\<not> i < length green" by simp
  with "0.prems" show ?case
    by (subst (asm) ChromaticCorrection_loop.simps) auto
next
  case (Suc n)
  then have i: "i < length green" by simp
  from Suc.prems(1) i obtain r b where
    r: "SampleFromPoints redP (degree (red ! i)) = Some r" and
    b: "SampleFromPoints blueP (degree (blue ! i)) = Some b" and
    rec: "ChromaticCorrection_loop green redP blueP (i + 1)
           (red[i := (red ! i)\<lparr>position := position (red ! i) * (r / 100 + 1)\<rparr>],
            blue[i := (blue ! i)\<lparr>position := position (blue ! i) * (b / 100 + 1)\<rparr>],
            max hf (degree (green ! i))) = Some (red', blue', hf')"
    by (subst (asm) ChromaticCorrection_loop.simps) (auto split: option.splits)
  let ?red1 = "red[i := (red ! i)\<lparr>position := position (red ! i) * (r / 100 + 1)\<rparr>]"
  let ?blue1 = "blue[i := (blue ! i)\<lparr>position := position (blue ! i) * (b / 100 + 1)\<rparr>]"
  have n: "n = length green - (i + 1)" using Suc.hyps(2) by simp
  have l: "length ?red1 = length green" "length ?blue1 = length green"
    using Suc.prems by simp_all
  note IH = Suc.hyps(1) [OF n rec l]
  have dr: "drop i green = green ! i # drop (i + 1) green"
    using i by (simp add: Cons_nth_drop_Suc)
  have hf: "hf' = foldl max hf (map degree (drop i green))"
    using IH unfolding dr by simp
  have pts: "(j < i \<longrightarrow> red' ! j = red ! j \<and> blue' ! j = blue ! j) \<and>
       (i \<le> j \<longrightarrow> chroma_scale redP (red ! j) = Some (red' ! j) \<and>
                  chroma_scale blueP (blue ! j) = Some (blue' ! j))"
    if j: "j < length green" for j
  proof (cases "j = i")
    case True
    from IH j have "red' ! j = ?red1 ! j \<and> blue' ! j = ?blue1 ! j"
      using True by simp
    then show ?thesis
      using True i Suc.prems(2,3) r b by (simp add: chroma_scale_def)
  next
    case False
    from IH j have
      "(j < i + 1 \<longrightarrow> red' ! j = ?red1 ! j \<and> blue' ! j = ?blue1 ! j) \<and>
       (i + 1 \<le> j \<longrightarrow> chroma_scale redP (?red1 ! j) = Some (red' ! j) \<and>
                  chroma_scale blueP (?blue1 ! j) = Some (blue' ! j))"
      by blast
    with False show ?thesis by auto
  qed
  from IH hf pts show ?case by blast
qed

lemma SampleFromPoints_defined:
  "2 \<le> length points \<Longrightarrow> \<exists>r. SampleFromPoints points d = Some r"
  by (auto simp: SampleFromPoints_def Let_def split: option.splits)

lemma SampleFromPointsInverse_defined:
  "2 \<le> length points \<Longrightarrow> \<exists>r. SampleFromPointsInverse points p = Some r"
  by (auto simp: SampleFromPointsInverse_def Let_def split: option.splits)

lemma ChromaticCorrection_loop_defined:
  assumes "2 \<le> length redP" and "2 \<le> length blueP"
  shows "\<exists>res. ChromaticCorrection_loop green redP blueP i (red, blue, hf) = Some res"
proof (induction "length green - i" arbitrary: i red blue hf)
  case 0
  then show ?case by (subst ChromaticCorrection_loop.simps) simp
next
  case (Suc n)
  then have i: "i < length green" and n: "n = length green - (i + 1)" by simp_all
  from SampleFromPoints_defined [OF assms(1)] obtain r where
    r: "SampleFromPoints redP (degree (red ! i)) = Some r" by blast
  from SampleFromPoints_defined [OF assms(2)] obtain b where
    b: "SampleFromPoints blueP (degree (blue ! i)) = Some b" by blast
  from Suc.hyps(1) [OF n] i r b show ?case
    by (subst ChromaticCorrection_loop.simps) simp
qed

lemma length_SmoothPoints_ge:
  assumes "SmoothPoints points c = Some out" and "2 \<le> length points"
  shows "2 \<le> length out"
proof -
  from assms(2) obtain m where "length points - 1 = Suc m" by (cases "length points - 1") auto
  with length_SmoothPoints [OF assms(1)] show ?thesis by simp
qed

lemma Initialize_curves_defined:
  assumes "distortions s \<noteq> []" and "2 \<le> length (distortionsRed s)"
    and "2 \<le> length (distortionsBlue s)"
  shows "\<exists>green redP blueP red blue hf.
    SmoothPoints (distortions s) (inBetweenPoints s) = Some green \<and>
    SmoothPoints (distortionsRed s) (inBetweenPoints s) = Some redP \<and>
    SmoothPoints (distortionsBlue s) (inBetweenPoints s) = Some blueP \<and>
    ChromaticCorrection_loop green redP blueP 0 (green, green, halfFov s) = Some (red, blue, hf) \<and>
    Initialize_curves s = Some (green, red, blue, hf)"
proof -
  from assms have ne: "distortionsRed s \<noteq> []" "distortionsBlue s \<noteq> []" by auto
  obtain green where g: "SmoothPoints (distortions s) (inBetweenPoints s) = Some green"
    using assms(1) by (simp add: SmoothPoints_Some)
  obtain redP where r: "SmoothPoints (distortionsRed s) (inBetweenPoints s) = Some redP"
    using ne by (simp add: SmoothPoints_Some)
  obtain blueP where b: "SmoothPoints (distortionsBlue s) (inBetweenPoints s) = Some blueP"
    using ne by (simp add: SmoothPoints_Some)
  have "2 \<le> length redP" "2 \<le> length blueP"
    using length_SmoothPoints_ge [OF r assms(2)] length_SmoothPoints_ge [OF b assms(3)] by simp_all
  from ChromaticCorrection_loop_defined [OF this, of green 0 green green "halfFov s"]
  obtain red blue hf where
    l: "ChromaticCorrection_loop green redP blueP 0 (green, green, halfFov s) = Some (red, blue, hf)"
    by (metis prod_cases3)
  with g r b have "Initialize_curves s = Some (green, red, blue, hf)"
    by (simp add: Initialize_curves_def)
  with g r b l show ?thesis by blast
qed

lemma Initialize_curves_result:
  assumes "Initialize_curves s = Some (green, red, blue, hf)"
  shows "\<exists>redP blueP.
    SmoothPoints (distortions s) (inBetweenPoints s) = Some green \<and>
    SmoothPoints (distortionsRed s) (inBetweenPoints s) = Some redP \<and>
    SmoothPoints (distortionsBlue s) (inBetweenPoints s) = Some blueP \<and>
    length red = length green \<and> length blue = length green \<and>
    (\<forall>i < length green.
       chroma_scale redP (green ! i) = Some (red ! i) \<and>
       chroma_scale blueP (green ! i) = Some (blue ! i)) \<and>
    hf = foldl max (halfFov s) (map degree green)"
proof -
  from assms obtain redP blueP where
    g: "SmoothPoints (distortions s) (inBetweenPoints s) = Some green" and
    r: "SmoothPoints (distortionsRed s) (inBetweenPoints s) = Some redP" and
    b: "SmoothPoints (distortionsBlue s) (inBetweenPoints s) = Some blueP" and
    l: "ChromaticCorrection_loop green redP blueP 0 (green, green, halfFov s) = Some (red, blue, hf)"
    by (auto simp: Initialize_curves_def split: Option.bind_splits)
  from ChromaticCorrection_loop_result [OF l] g r b show ?thesis
    by auto
qed

lemma position_update_conv:
  "pt\<lparr>position := q\<rparr> = \<lparr>degree = degree pt, position = q\<rparr>"
  by (cases pt) simp

lemma position_update_sel: "position (pt\<lparr>position := q\<rparr>) = q"
  by simp

lemma position_SmoothControlPoints_constant:
  assumes "list_all (\<lambda>pt. position pt = v) points" and "i < length points - 1"
  shows "map position (SmoothControlPoints points i) = [v, v, v, v]"
proof -
  have all: "position (points ! j) = v" if "j < length points" for j
    using assms(1) that by (simp add: list_all_length)
  from assms(2) have "position (points ! i) = v" "position (points ! (i + 1)) = v"
    by (simp_all add: all)
  moreover have "position (points ! (i - 1)) = v"
    using assms(2) by (intro all) simp
  moreover have "position (points ! (i + 2)) = v" if "\<not> length points - 2 \<le> i"
    using that by (intro all) simp
  ultimately show ?thesis
    by (auto simp: SmoothControlPoints_def Let_def)
qed

lemma position_BezierPoint_constant:
  assumes "map position controlPoints = [v, v, v, v]"
  shows "position (BezierPoint t controlPoints) = v"
proof -
  from assms have "length controlPoints = 4"
    by (metis length_map length_Cons list.size(3) numeral_Bit0 numeral_One
        add_Suc_right add_Suc one_add_one Suc_eq_plus1 add.right_neutral numeral_2_eq_2 numeral_3_eq_3)
  then obtain a b c d where cp: "controlPoints = [a, b, c, d]"
    by (auto simp: length_Suc_conv numeral_eq_Suc)
  with assms have "position a = v" "position b = v" "position c = v" "position d = v"
    by simp_all
  then have "position (BezierPoint t controlPoints) =
      v * ((1 - t) ^ 3 + 3 * ((1 - t) * (1 - t)) * t + 3 * (1 - t) * (t * t) + t ^ 3)"
    by (simp add: BezierPoint_def cp Let_def numeral_2_eq_2 numeral_3_eq_3 algebra_simps)
  also have "(1 - t) ^ 3 + 3 * ((1 - t) * (1 - t)) * t + 3 * (1 - t) * (t * t) + t ^ 3 = 1"
    by (simp add: power3_eq_cube algebra_simps)
  finally show ?thesis by simp
qed

lemma SmoothSegment_constant_position:
  assumes "list_all (\<lambda>pt. position pt = v) points" and "i < length points - 1"
  shows "list_all (\<lambda>pt. position pt = v) (SmoothSegment points c i)"
proof -
  have "position (points ! i) = v"
    using assms by (simp add: list_all_length)
  then show ?thesis
    using position_BezierPoint_constant [OF position_SmoothControlPoints_constant [OF assms]]
    by (simp add: SmoothSegment_def Let_def list_all_iff)
qed

lemma SmoothPoints_constant_position:
  assumes c: "list_all (\<lambda>pt. position pt = v) points" and out: "SmoothPoints points c = Some out"
  shows "list_all (\<lambda>pt. position pt = v) out"
proof -
  from out have ne: "points \<noteq> []" by (auto simp: SmoothPoints_def split: if_splits)
  with out have o: "out = concat (map (SmoothSegment points c) [0..<length points - 1]) @ [last points]"
    by (simp add: SmoothPoints_Some)
  have "position (last points) = v"
    using c ne by (simp add: list_all_iff)
  moreover have "list_all (\<lambda>pt. position pt = v) (SmoothSegment points c i)"
    if "i < length points - 1" for i
    by (rule SmoothSegment_constant_position [OF c that])
  ultimately show ?thesis
    unfolding o by (auto simp: list_all_iff)
qed

lemma SampleFromPoints_loop_Some:
  assumes "SampleFromPoints_loop points d i = Some r"
  shows "\<exists>k. k < length points - 1 \<and>
           r = position (points ! k) +
               (d - degree (points ! k)) / (degree (points ! (k + 1)) - degree (points ! k)) *
               (position (points ! (k + 1)) - position (points ! k))"
  using assms
proof (induction points d i rule: SampleFromPoints_loop.induct)
  case (1 points d i)
  from "1.prems" have i: "i < length points - 1"
    by (subst (asm) SampleFromPoints_loop.simps) (simp split: if_splits)
  show ?case
  proof (cases "degree (points ! i) \<le> d \<and> d \<le> degree (points ! (i + 1))")
    case True
    with "1.prems" i show ?thesis
      by (subst (asm) SampleFromPoints_loop.simps) (auto simp: Let_def)
  next
    case False
    with "1.prems" i have "SampleFromPoints_loop points d (i + 1) = Some r"
      by (subst (asm) SampleFromPoints_loop.simps) auto
    with "1.IH" i False show ?thesis by blast
  qed
qed

lemma SampleFromPoints_constant_position:
  assumes n: "2 \<le> length points" and c: "list_all (\<lambda>pt. position pt = v) points"
  shows "SampleFromPoints points d = Some v"
proof -
  have all: "position (points ! j) = v" if "j < length points" for j
    using c that by (simp add: list_all_length)
  from n have ne: "points \<noteq> []" by auto
  show ?thesis
  proof (cases "SampleFromPoints_loop points d 0")
    case None
    with n ne show ?thesis
      by (simp add: SampleFromPoints_def Let_def lerp_def all)
  next
    case (Some r)
    from SampleFromPoints_loop_Some [OF Some] obtain k where "k < length points - 1"
      "r = position (points ! k) +
               (d - degree (points ! k)) / (degree (points ! (k + 1)) - degree (points ! k)) *
               (position (points ! (k + 1)) - position (points ! k))" by blast
    then have "r = v" by (simp add: all)
    with Some ne show ?thesis by (simp add: SampleFromPoints_def)
  qed
qed

text \<open>
  Claim C2. After \<^verbatim>\<open>Initialize\<close> has smoothed the curves (each of at least two points),
  the corrected red point at every index \<open>i\<close> has the degree of the smoothed green point
  and its position multiplied by \<open>SampleFromPoints(smoothed red offsets, degree) / 100 + 1\<close>,
  the offset curve being sampled at the green curve's degree; the same for blue. When the
  red offset curve is constantly 5 (its degrees strictly increasing, so that no quotient
  of the source has a zero denominator), every corrected red position is 1.05 times the
  green position; the same for blue.
\<close>

theorem chromatic_correction_scales_green:
  assumes "2 \<le> length (distortions s)" and "2 \<le> length (distortionsRed s)"
    and "2 \<le> length (distortionsBlue s)"
  shows "\<exists>green redPercent bluePercent red blue hf.
     SmoothPoints (distortions s) (inBetweenPoints s) = Some green \<and>
     SmoothPoints (distortionsRed s) (inBetweenPoints s) = Some redPercent \<and>
     SmoothPoints (distortionsBlue s) (inBetweenPoints s) = Some bluePercent \<and>
     Initialize_curves s = Some (green, red, blue, hf) \<and>
     length red = length green \<and> length blue = length green \<and>
     (\<forall>i < length green. \<exists>r b.
        SampleFromPoints redPercent (degree (green ! i)) = Some r \<and>
        SampleFromPoints bluePercent (degree (green ! i)) = Some b \<and>
        red ! i = \<lparr>degree = degree (green ! i), position = position (green ! i) * (r / 100 + 1)\<rparr> \<and>
        blue ! i = \<lparr>degree = degree (green ! i), position = position (green ! i) * (b / 100 + 1)\<rparr>) \<and>
     (sorted_wrt (<) (map degree (distortionsRed s)) \<and>
      list_all (\<lambda>pt. position pt = 5) (distortionsRed s) \<longrightarrow>
        (\<forall>i < length green. position (red ! i) = 1.05 * position (green ! i))) \<and>
     (sorted_wrt (<) (map degree (distortionsBlue s)) \<and>
      list_all (\<lambda>pt. position pt = 5) (distortionsBlue s) \<longrightarrow>
        (\<forall>i < length green. position (blue ! i) = 1.05 * position (green ! i)))"
proof -
  from assms(1) have "distortions s \<noteq> []" by auto
  from Initialize_curves_defined [OF this assms(2,3)]
  obtain green redP blueP red blue hf where
    g: "SmoothPoints (distortions s) (inBetweenPoints s) = Some green" and
    r: "SmoothPoints (distortionsRed s) (inBetweenPoints s) = Some redP" and
    b: "SmoothPoints (distortionsBlue s) (inBetweenPoints s) = Some blueP" and
    ic: "Initialize_curves s = Some (green, red, blue, hf)"
    by blast
  from Initialize_curves_result [OF ic] r b have
    len: "length red = length green" "length blue = length green" and
    sc: "\<And>i. i < length green \<Longrightarrow>
       chroma_scale redP (green ! i) = Some (red ! i) \<and>
       chroma_scale blueP (green ! i) = Some (blue ! i)"
    by auto
  have pts: "\<exists>r b.
        SampleFromPoints redP (degree (green ! i)) = Some r \<and>
        SampleFromPoints blueP (degree (green ! i)) = Some b \<and>
        red ! i = \<lparr>degree = degree (green ! i), position = position (green ! i) * (r / 100 + 1)\<rparr> \<and>
        blue ! i = \<lparr>degree = degree (green ! i), position = position (green ! i) * (b / 100 + 1)\<rparr>"
    if "i < length green" for i
    using sc [OF that] by (auto simp: chroma_scale_def position_update_conv)
  have n2: "2 \<le> length redP" "2 \<le> length blueP"
    using length_SmoothPoints_ge [OF r assms(2)] length_SmoothPoints_ge [OF b assms(3)] by simp_all
  have red5: "position (red ! i) = 1.05 * position (green ! i)"
    if "list_all (\<lambda>pt. position pt = 5) (distortionsRed s)" and "i < length green" for i
  proof -
    have "SampleFromPoints redP (degree (green ! i)) = Some 5"
      by (rule SampleFromPoints_constant_position
          [OF n2(1) SmoothPoints_constant_position [OF that(1) r]])
    with sc [OF that(2)] have
      "red ! i = (green ! i)\<lparr>position := position (green ! i) * (5 / 100 + 1)\<rparr>"
      by (simp add: chroma_scale_def)
    then have "position (red ! i) = position (green ! i) * (5 / 100 + 1)"
      by (simp only: position_update_sel)
    then show ?thesis by simp
  qed
  have blue5: "position (blue ! i) = 1.05 * position (green ! i)"
    if "list_all (\<lambda>pt. position pt = 5) (distortionsBlue s)" and "i < length green" for i
  proof -
    have "SampleFromPoints blueP (degree (green ! i)) = Some 5"
      by (rule SampleFromPoints_constant_position
          [OF n2(2) SmoothPoints_constant_position [OF that(1) b]])
    with sc [OF that(2)] have
      "blue ! i = (green ! i)\<lparr>position := position (green ! i) * (5 / 100 + 1)\<rparr>"
      by (simp add: chroma_scale_def)
    then have "position (blue ! i) = position (green ! i) * (5 / 100 + 1)"
      by (simp only: position_update_sel)
    then show ?thesis by simp
  qed
  from g r b ic len pts red5 blue5 show ?thesis by blast
qed

theorem chromatic_correction_scales_green_witness:
  "2 \<le> length (distortions scenario_profile) \<and>
   2 \<le> length (distortionsRed scenario_profile) \<and>
   2 \<le> length (distortionsBlue scenario_profile) \<and>
   sorted_wrt (<) (map degree (distortionsRed scenario_profile)) \<and>
   list_all (\<lambda>pt. position pt = 5) (distortionsRed scenario_profile) \<and>
   sorted_wrt (<) (map degree (distortionsBlue scenario_profile)) \<and>
   list_all (\<lambda>pt. position pt = 5) (distortionsBlue scenario_profile) \<and>
   (\<exists>green red blue hf.
      Initialize_curves scenario_profile = Some (green, red, blue, hf) \<and>
      length green = 7 \<and>
      position (red ! 3) = 1.05 * position (green ! 3) \<and>
      position (blue ! 3) = 1.05 * position (green ! 3))"
proof -
  have h: "2 \<le> length (distortions scenario_profile)"
    "2 \<le> length (distortionsRed scenario_profile)"
    "2 \<le> length (distortionsBlue scenario_profile)"
    by (simp_all add: scenario_profile_def scenario_points_def)
  have c: "sorted_wrt (<) (map degree (distortionsRed scenario_profile))"
    "list_all (\<lambda>pt. position pt = 5) (distortionsRed scenario_profile)"
    "sorted_wrt (<) (map degree (distortionsBlue scenario_profile))"
    "list_all (\<lambda>pt. position pt = 5) (distortionsBlue scenario_profile)"
    by (simp_all add: scenario_profile_def)
  from chromatic_correction_scales_green [OF h] c
  obtain green red blue hf where
    g: "SmoothPoints (distortions scenario_profile) (inBetweenPoints scenario_profile) = Some green"
    and ic: "Initialize_curves scenario_profile = Some (green, red, blue, hf)"
    and r5: "\<forall>i < length green. position (red ! i) = 1.05 * position (green ! i)"
    and b5: "\<forall>i < length green. position (blue ! i) = 1.05 * position (green ! i)"
    by blast
  have len: "length green = 7"
    using length_SmoothPoints [OF g] by (simp add: scenario_profile_def scenario_points_def)
  with r5 b5 have "position (red ! 3) = 1.05 * position (green ! 3)"
    "position (blue ! 3) = 1.05 * position (green ! 3)" by simp_all
  with ic len h c show ?thesis by blast
qed

lemma those_map_defined:
  "(\<And>a. a \<in> set as \<Longrightarrow> \<exists>b. f a = Some b) \<Longrightarrow> \<exists>bs. those (map f as) = Some bs"
proof (induction as)
  case Nil
  then show ?case by simp
next
  case (Cons a as)
  from Cons.prems obtain b where "f a = Some b" by auto
  moreover from Cons obtain bs where "those (map f as) = Some bs" by auto
  ultimately show ?case by simp
qed

lemma RadialMap_defined:
  "2 \<le> length curve \<Longrightarrow> \<exists>m. RadialMap curve mapSize conversion = Some m"
  unfolding RadialMap_def
  by (intro those_map_defined SampleFromPointsInverse_defined)

lemma ComputePPD_defined:
  "2 \<le> length distortion \<Longrightarrow> \<exists>v. ComputePPD s distortion degreeStart degreeEnd = Some v"
  using SampleFromPoints_defined [of distortion degreeEnd]
    SampleFromPoints_defined [of distortion degreeStart]
  by (auto simp: ComputePPD_def)

lemma Initialize_log_defined:
  assumes "2 \<le> length green"
  shows "Initialize_log s green = Some ()"
proof -
  have "ComputePPD s green a b \<bind> f = f (the (ComputePPD s green a b))" for a b
    and f :: "real \<Rightarrow> unit option"
    using ComputePPD_defined [OF assms, of s a b] by auto
  then show ?thesis by (simp add: Initialize_log_def)
qed

lemma Cleanup_fields [simp]:
  "distortions (Cleanup s) = distortions s"
  "distortionsRed (Cleanup s) = distortionsRed s"
  "distortionsBlue (Cleanup s) = distortionsBlue s"
  "inBetweenPoints (Cleanup s) = inBetweenPoints s"
  "radialMapSize (Cleanup s) = radialMapSize s"
  "halfFov (Cleanup s) = halfFov s"
  "resolution (Cleanup s) = resolution s"
  by (simp_all add: Cleanup_def)

lemma Initialize_curves_Cleanup [simp]: "Initialize_curves (Cleanup s) = Initialize_curves s"
  by (simp add: Initialize_curves_def)

text \<open>What a call of Initialize leaves in the fields, when it returns.\<close>

lemma Initialize_result:
  assumes "Initialize s = Some s'"
  shows "\<exists>green red blue hf.
    Initialize_curves s = Some (green, red, blue, hf) \<and> halfFov s' = hf \<and>
    distortions s' = distortions s \<and> distortionsRed s' = distortionsRed s \<and>
    distortionsBlue s' = distortionsBlue s \<and> inBetweenPoints s' = inBetweenPoints s \<and>
    radialMapSize s' = radialMapSize s \<and> resolution s' = resolution s"
  using assms
  by (auto simp: Initialize_def Let_def split: Option.bind_splits if_splits)

lemma Initialize_defined:
  assumes "2 \<le> length (distortions s)" and "2 \<le> length (distortionsRed s)"
    and "2 \<le> length (distortionsBlue s)" and "0 \<le> radialMapSize s"
  shows "\<exists>s'. Initialize s = Some s'"
proof -
  from assms(1) have "distortions s \<noteq> []" by auto
  from Initialize_curves_defined [OF this assms(2,3)]
  obtain green red blue hf where
    g: "SmoothPoints (distortions s) (inBetweenPoints s) = Some green" and
    ic: "Initialize_curves s = Some (green, red, blue, hf)" by blast
  have lg: "2 \<le> length green" by (rule length_SmoothPoints_ge [OF g assms(1)])
  from Initialize_curves_result [OF ic] have
    len: "length red = length green" "length blue = length green" by auto
  have log: "Initialize_log (Cleanup s) green = Some ()"
    by (rule Initialize_log_defined [OF lg])
  let ?e = "tan (hf * pi / 180)"
  let ?c = "real_of_int (radialMapSize s) / 1"
  obtain mapR where r: "RadialMap (map (ToInputSpace ?e) red) (radialMapSize s) ?c = Some mapR"
    using RadialMap_defined [of "map (ToInputSpace ?e) red"] lg len by auto
  obtain mapG where gm: "RadialMap (map (ToInputSpace ?e) green) (radialMapSize s) ?c = Some mapG"
    using RadialMap_defined [of "map (ToInputSpace ?e) green"] lg len by auto
  obtain mapB where b: "RadialMap (map (ToInputSpace ?e) blue) (radialMapSize s) ?c = Some mapB"
    using RadialMap_defined [of "map (ToInputSpace ?e) blue"] lg len by auto
  show ?thesis
    using ic log r gm b assms(4)
    by (simp add: Initialize_def Let_def)
qed

lemma foldl_max_Max: "foldl max (h::real) ds = Max (insert h (set ds))"
proof (induction ds arbitrary: h)
  case Nil
  then show ?case by simp
next
  case (Cons d ds)
  have "Max (insert h (insert d (set ds))) = Max (insert (max h d) (set ds))"
    by (cases "set ds = {}") (simp_all add: max.assoc)
  with Cons show ?case by simp
qed

text \<open>
  The half field of view after Initialize: the larger of its previous value and the
  widest degree of the smoothed green curve.
\<close>

lemma Initialize_halfFov:
  assumes "Initialize s = Some s'"
  shows "\<exists>green. SmoothPoints (distortions s) (inBetweenPoints s) = Some green \<and>
           halfFov s' = Max (insert (halfFov s) (set (map degree green)))"
proof -
  from Initialize_result [OF assms] obtain green red blue where
    ic: "Initialize_curves s = Some (green, red, blue, halfFov s')" by blast
  from Initialize_curves_result [OF ic] show ?thesis
    by (auto simp: foldl_max_Max)
qed

text \<open>
  Claim C1. The claim is that after every call of \<^verbatim>\<open>Initialize\<close>, a repeated one
  included, \<^verbatim>\<open>halfFov\<close> is the widest degree of the smoothed green curve, and that
  \<^verbatim>\<open>GetProjectionRaw\<close> returns the tangents of plus and minus that angle. The loop only
  ever raises \<^verbatim>\<open>halfFov\<close> and nothing resets it, so the value of an earlier call
  survives: initialised with a green curve that reaches 45 degrees and then again with
  one that reaches 30 degrees, the profile keeps \<^verbatim>\<open>halfFov = 45\<close>, and the projection
  is that of 45 degrees.
\<close>

theorem Initialize_again_keeps_wider_halfFov:
  "\<exists>s1 s2 green2.
     Initialize wide_profile = Some s1 \<and> halfFov s1 = 45 \<and>
     Initialize (s1\<lparr>distortions := narrow_points\<rparr>) = Some s2 \<and>
     SmoothPoints narrow_points (inBetweenPoints s1) = Some green2 \<and>
     map degree green2 = [0, 15, 30] \<and>
     halfFov s2 = 45 \<and>
     GetProjectionRaw s2 Eye_Left =
       (tan (- (45 * pi / 180)), tan (45 * pi / 180), tan (- (45 * pi / 180)), tan (45 * pi / 180))"
proof -
  have g1: "SmoothPoints (distortions wide_profile) (inBetweenPoints wide_profile) =
    Some [\<lparr>degree = 0, position = 0\<rparr>, \<lparr>degree = 45 / 2, position = 45\<rparr>,
          \<lparr>degree = 45, position = 90\<rparr>]"
    by (simp add: SmoothPoints_def SmoothPoints_loop.simps SmoothSegment_def
        SmoothControlPoints_def BezierPoint_def Let_def wide_profile_def power3_eq_cube)
  have g2: "SmoothPoints narrow_points 1 =
    Some [\<lparr>degree = 0, position = 0\<rparr>, \<lparr>degree = 15, position = 30\<rparr>,
          \<lparr>degree = 30, position = 60\<rparr>]"
    by (simp add: SmoothPoints_def SmoothPoints_loop.simps SmoothSegment_def
        SmoothControlPoints_def BezierPoint_def Let_def narrow_points_def power3_eq_cube)
  obtain s1 where s1: "Initialize wide_profile = Some s1"
    using Initialize_defined [of wide_profile] by (auto simp: wide_profile_def)
  from Initialize_halfFov [OF s1] g1 have h1: "halfFov s1 = 45"
    by (simp add: wide_profile_def)
  from Initialize_result [OF s1] have f1:
    "distortionsRed s1 = distortionsRed wide_profile"
    "distortionsBlue s1 = distortionsBlue wide_profile"
    "inBetweenPoints s1 = 1" "radialMapSize s1 = 4"
    by (auto simp: wide_profile_def)
  let ?s = "s1\<lparr>distortions := narrow_points\<rparr>"
  obtain s2 where s2: "Initialize ?s = Some s2"
    using Initialize_defined [of ?s] f1 by (auto simp: wide_profile_def narrow_points_def)
  from Initialize_halfFov [OF s2] g2 f1 h1 have h2: "halfFov s2 = 45"
    by simp
  have "GetProjectionRaw s2 Eye_Left =
       (tan (- (45 * pi / 180)), tan (45 * pi / 180), tan (- (45 * pi / 180)), tan (45 * pi / 180))"
    by (simp add: GetProjectionRaw_def Let_def h2)
  with s1 h1 s2 g2 f1 h2 show ?thesis by auto
qed

section \<open>Properties of the runtime sampling\<close>

lemma float_to_int_range:
  "float_to_int v = Some k \<Longrightarrow> - (2 ^ 31) \<le> k \<and> k < 2 ^ 31"
  by (auto simp: float_to_int_def Let_def split: if_splits)

lemma SampleFromMap_index_bounds:
  assumes "2 \<le> radialMapSize s" and "SampleFromMap_index s radius = Some index"
  shows "0 \<le> index \<and> index \<le> radialMapSize s - 2"
  using assms by (auto simp: SampleFromMap_index_def split: Option.bind_splits if_splits)

lemma SampleFromMap_reads_inside:
  assumes "2 \<le> radialMapSize s" and "int (length m) = radialMapSize s"
    and "SampleFromMap_index s radius = Some index"
  shows "SampleFromMap s (Some m) radius =
           Some (lerp (m ! nat index) (m ! nat (index + 1))
                   (radius * radialMapConversion s - real_of_int index)) \<and>
         nat index < length m \<and> nat (index + 1) < length m"
  using SampleFromMap_index_bounds [OF assms(1,3)] assms
  by (auto simp: SampleFromMap_def)

text \<open>
  Claim C10. For every state of the profile, every colour channel and every \<open>(u, v)\<close>,
  \<^verbatim>\<open>ComputeDistortion\<close> returns the same for the left and for the right eye.
\<close>

theorem ComputeDistortion_eye_independent:
  "ComputeDistortion s Eye_Left colorChannel fU fV =
   ComputeDistortion s Eye_Right colorChannel fU fV"
  by (simp add: ComputeDistortion_def)

theorem ComputeDistortion_eye_independent_witness:
  "ComputeDistortion tabled_profile Eye_Left ColorChannelGreen (3 / 10) (4 / 10) =
   ComputeDistortion tabled_profile Eye_Right ColorChannelGreen (3 / 10) (4 / 10) \<and>
   ComputeDistortion tabled_profile Eye_Right ColorChannelGreen (3 / 10) (4 / 10) =
     Some \<lparr>x = 3 / 10, y = 4 / 10\<rparr>"
proof (rule conjI)
  show "ComputeDistortion tabled_profile Eye_Left ColorChannelGreen (3 / 10) (4 / 10) =
   ComputeDistortion tabled_profile Eye_Right ColorChannelGreen (3 / 10) (4 / 10)"
    by (rule ComputeDistortion_eye_independent)
  have "sqrt (1 / 4) = 1 / 2"
    by (simp add: real_sqrt_divide)
  then have r: "sqrt (3 / 10 * (3 / 10) + 4 / 10 * (4 / 10)) = 1 / 2"
    by simp
  have i: "SampleFromMap_index tabled_profile (1 / 2) = Some 0"
    by (simp add: SampleFromMap_index_def float_to_int_def tabled_profile_def)
  have "SampleFromMap tabled_profile (radialUVMapG tabled_profile) (1 / 2) = Some (1 / 2)"
    unfolding SampleFromMap_def i by (simp add: tabled_profile_def lerp_def)
  then show "ComputeDistortion tabled_profile Eye_Right ColorChannelGreen (3 / 10) (4 / 10) =
     Some \<lparr>x = 3 / 10, y = 4 / 10\<rparr>"
    unfolding ComputeDistortion_def r by (simp add: Let_def)
qed

section \<open>Properties in binary32\<close>

subsection \<open>Rounding\<close>

lemma pow2_powr: "pow2 e = 2 powr real_of_int e"
  by (simp add: pow2_def powr_int)

lemma pow2_pos [simp]: "0 < pow2 e"
  by (simp add: pow2_powr)

lemma round_to_normal:
  assumes "pow2 e \<le> \<bar>v\<bar>" and "\<bar>v\<bar> < pow2 (e + 1)" and "emin \<le> e"
  shows "round_to p emin emax v =
    (let q = pow2 (e - int p + 1);
         r = q * of_int (round_half_even (v / q))
     in if pow2 (emax + 1) \<le> \<bar>r\<bar> then (if 0 < v then PInf else NInf) else Finite r)"
proof -
  have pos: "0 < \<bar>v\<bar>" using assms(1) pow2_pos [of e] by linarith
  then have "\<lfloor>log 2 \<bar>v\<bar>\<rfloor> = e"
    using assms(1,2) by (simp add: floor_log_eq_powr_iff pow2_powr)
  with pos assms(3) show ?thesis
    by (simp add: round_to_def max_def)
qed

lemma round_to_subnormal:
  assumes "v \<noteq> 0" and "\<bar>v\<bar> < pow2 emin"
  shows "round_to p emin emax v =
    (let q = pow2 (emin - int p + 1);
         r = q * of_int (round_half_even (v / q))
     in if pow2 (emax + 1) \<le> \<bar>r\<bar> then (if 0 < v then PInf else NInf) else Finite r)"
proof -
  have pos: "0 < \<bar>v\<bar>" using assms(1) by simp
  have "\<lfloor>log 2 \<bar>v\<bar>\<rfloor> < emin"
  proof (rule ccontr)
    assume "\<not> \<lfloor>log 2 \<bar>v\<bar>\<rfloor> < emin"
    then have "real_of_int emin \<le> log 2 \<bar>v\<bar>" by linarith
    then have "2 powr real_of_int emin \<le> \<bar>v\<bar>"
      using pos by (simp add: le_log_iff)
    with assms(2) show False by (simp add: pow2_powr)
  qed
  with assms(1) show ?thesis
    by (simp add: round_to_def max_def)
qed


lemmas round32_normal = round_to_normal [where p = 24 and emin = "- 126" and emax = 127, folded round32_def]
lemmas round32_subnormal = round_to_subnormal [where p = 24 and emin = "- 126" and emax = 127, folded round32_def]

lemma round32_0 [simp]: "round32 0 = Finite 0"
  by (simp add: round32_def round_to_def)

lemma round64_0 [simp]: "round64 0 = Finite 0"
  by (simp add: round64_def round_to_def)

lemmas round_eval = pow2_def round_half_even_def Let_def

lemmas round32_small =
  round32_normal [where e = "- 2"] round32_normal [where e = "- 1"] round32_normal [where e = 0]
  round32_normal [where e = 1] round32_normal [where e = 2] round32_normal [where e = 3]
  round32_normal [where e = 4]



lemma round_half_even_near: "\<bar>of_int (round_half_even r) - r\<bar> \<le> 1 / 2"
  unfolding round_half_even_def Let_def
  by (auto simp: abs_le_iff)

lemma round_half_even_0: "round_half_even r = 0 \<Longrightarrow> \<bar>r\<bar> \<le> 1 / 2"
  using round_half_even_near [of r] by simp

lemma pow2_nonneg [simp]: "0 \<le> pow2 e"
  using pow2_pos [of e] by linarith

lemma pow2_neq_0 [simp]: "pow2 e \<noteq> 0"
  using pow2_pos [of e] by linarith

lemma pow2_add: "pow2 (a + b) = pow2 a * pow2 b"
  by (simp add: pow2_powr powr_add)

lemma pow2_mono: "a \<le> b \<Longrightarrow> pow2 a \<le> pow2 b"
  by (simp add: pow2_powr)

lemma pow2_strict_mono: "a < b \<Longrightarrow> pow2 a < pow2 b"
  by (simp add: pow2_powr)

lemma pow2_nat: "0 \<le> e \<Longrightarrow> pow2 e = of_int (2 ^ nat e)"
  by (simp add: pow2_def)

text \<open>The binade of a non-zero value.\<close>

lemma binade_bounds:
  assumes "v \<noteq> 0"
  shows "pow2 \<lfloor>log 2 \<bar>v\<bar>\<rfloor> \<le> \<bar>v\<bar>" and "\<bar>v\<bar> < pow2 (\<lfloor>log 2 \<bar>v\<bar>\<rfloor> + 1)"
proof -
  have "0 < \<bar>v\<bar>" using assms by simp
  then have "2 powr real_of_int \<lfloor>log 2 \<bar>v\<bar>\<rfloor> \<le> \<bar>v\<bar> \<and>
             \<bar>v\<bar> < 2 powr real_of_int (\<lfloor>log 2 \<bar>v\<bar>\<rfloor> + 1)"
    using floor_log_eq_powr_iff [of "\<bar>v\<bar>" 2 "\<lfloor>log 2 \<bar>v\<bar>\<rfloor>"] by simp
  then show "pow2 \<lfloor>log 2 \<bar>v\<bar>\<rfloor> \<le> \<bar>v\<bar>" and "\<bar>v\<bar> < pow2 (\<lfloor>log 2 \<bar>v\<bar>\<rfloor> + 1)"
    by (simp_all add: pow2_powr)
qed

text \<open>The shape of a rounded value: a quantum times an integer, near the value.\<close>

lemma round32_shape:
  assumes "v \<noteq> 0"
  obtains e k where "e = max \<lfloor>log 2 \<bar>v\<bar>\<rfloor> (- 126)"
    and "k = round_half_even (v / pow2 (e - 23))"
    and "round32 v =
           (if pow2 128 \<le> \<bar>pow2 (e - 23) * of_int k\<bar> then (if 0 < v then PInf else NInf)
            else Finite (pow2 (e - 23) * of_int k))"
    and "\<bar>pow2 (e - 23) * of_int k - v\<bar> \<le> pow2 (e - 23) / 2"
proof -
  define e where "e = max \<lfloor>log 2 \<bar>v\<bar>\<rfloor> (- 126)"
  define k where "k = round_half_even (v / pow2 (e - 23))"
  have r: "round32 v =
           (if pow2 128 \<le> \<bar>pow2 (e - 23) * of_int k\<bar> then (if 0 < v then PInf else NInf)
            else Finite (pow2 (e - 23) * of_int k))"
    using assms by (simp add: round32_def round_to_def Let_def e_def k_def)
  have "\<bar>of_int k - v / pow2 (e - 23)\<bar> \<le> 1 / 2"
    unfolding k_def by (rule round_half_even_near)
  then have "pow2 (e - 23) * \<bar>of_int k - v / pow2 (e - 23)\<bar> \<le> pow2 (e - 23) * (1 / 2)"
    by (intro mult_left_mono) simp_all
  also have "pow2 (e - 23) * \<bar>of_int k - v / pow2 (e - 23)\<bar> =
             \<bar>pow2 (e - 23) * (of_int k - v / pow2 (e - 23))\<bar>"
    by (simp add: abs_mult)
  also have "pow2 (e - 23) * (of_int k - v / pow2 (e - 23)) = pow2 (e - 23) * of_int k - v"
    using pow2_pos [of "e - 23"] by (simp add: field_simps)
  finally have n: "\<bar>pow2 (e - 23) * of_int k - v\<bar> \<le> pow2 (e - 23) / 2" by simp
  from e_def k_def r n show ?thesis by (rule that)
qed

lemma round32_eq_0:
  assumes "round32 v = Finite 0"
  shows "\<bar>v\<bar> \<le> pow2 (- 150)"
proof (cases "v = 0")
  case True
  then show ?thesis using pow2_pos [of "- 150"] by simp
next
  case False
  from round32_shape [OF False] obtain e k where
    e: "e = max \<lfloor>log 2 \<bar>v\<bar>\<rfloor> (- 126)" and
    r: "round32 v =
           (if pow2 128 \<le> \<bar>pow2 (e - 23) * of_int k\<bar> then (if 0 < v then PInf else NInf)
            else Finite (pow2 (e - 23) * of_int k))" and
    n: "\<bar>pow2 (e - 23) * of_int k - v\<bar> \<le> pow2 (e - 23) / 2"
    by blast
  from r assms have "pow2 (e - 23) * of_int k = 0"
    by (auto split: if_splits)
  with n have small: "\<bar>v\<bar> \<le> pow2 (e - 23) / 2" by simp
  have "e = - 126"
  proof (rule ccontr)
    assume "e \<noteq> - 126"
    with e have "e = \<lfloor>log 2 \<bar>v\<bar>\<rfloor>" by (simp add: max_def split: if_splits)
    with binade_bounds(1) [OF False] have "pow2 e \<le> \<bar>v\<bar>" by simp
    moreover have "pow2 (e - 23) < pow2 e" by (rule pow2_strict_mono) simp
    ultimately show False using small pow2_pos [of "e - 23"] by linarith
  qed
  with small have "\<bar>v\<bar> \<le> pow2 (- 149) / 2" by simp
  also have "pow2 (- 149) / 2 = pow2 (- 150)" by (simp add: pow2_def)
  finally show ?thesis .
qed

lemma is_binary32_multiple:
  assumes "is_binary32 v"
  shows "\<exists>n::int. v = pow2 (- 149) * of_int n"
proof (cases "v = 0")
  case True
  then show ?thesis by (intro exI [of _ 0]) simp
next
  case False
  from round32_shape [OF False] obtain e k where
    e: "e = max \<lfloor>log 2 \<bar>v\<bar>\<rfloor> (- 126)" and
    r: "round32 v =
           (if pow2 128 \<le> \<bar>pow2 (e - 23) * of_int k\<bar> then (if 0 < v then PInf else NInf)
            else Finite (pow2 (e - 23) * of_int k))"
    by blast
  from r assms have v: "v = pow2 (e - 23) * of_int k"
    by (auto simp: is_binary32_def split: if_splits)
  from e have "0 \<le> e + 126" by simp
  have "pow2 (e - 23) = pow2 (- 149 + (e + 126))" by simp
  also have "\<dots> = pow2 (- 149) * pow2 (e + 126)" by (rule pow2_add)
  also have "pow2 (e + 126) = of_int (2 ^ nat (e + 126))"
    using \<open>0 \<le> e + 126\<close> by (rule pow2_nat)
  finally have "v = pow2 (- 149) * of_int (2 ^ nat (e + 126) * k)"
    using v by simp
  then show ?thesis by blast
qed

lemma binary32_gap_not_0:
  assumes "is_binary32 a" and "is_binary32 b" and "a < b"
  shows "round32 (b - a) \<noteq> Finite 0"
proof
  assume "round32 (b - a) = Finite 0"
  then have small: "\<bar>b - a\<bar> \<le> pow2 (- 150)" by (rule round32_eq_0)
  from is_binary32_multiple [OF assms(1)] is_binary32_multiple [OF assms(2)]
  obtain m n :: int where a: "a = pow2 (- 149) * of_int m" and b: "b = pow2 (- 149) * of_int n"
    by blast
  have "b - a = pow2 (- 149) * of_int (n - m)"
    by (simp add: a b algebra_simps)
  moreover from assms(3) a b have "m < n"
    using pow2_pos [of "- 149"] by (simp add: mult_less_cancel_left_pos)
  then have "1 \<le> (of_int (n - m) :: real)" by simp
  then have "pow2 (- 149) * 1 \<le> pow2 (- 149) * of_int (n - m)"
    by (intro mult_left_mono) simp_all
  ultimately have "pow2 (- 149) \<le> b - a" by simp
  moreover have "pow2 (- 150) < pow2 (- 149)" by (rule pow2_strict_mono) simp
  ultimately show False using small by linarith
qed

lemma round32_finite:
  assumes "\<bar>v\<bar> \<le> pow2 127"
  shows "\<exists>r. round32 v = Finite r"
proof (cases "v = 0")
  case True
  then show ?thesis by simp
next
  case False
  from round32_shape [OF False] obtain e k where
    e: "e = max \<lfloor>log 2 \<bar>v\<bar>\<rfloor> (- 126)" and
    r: "round32 v =
           (if pow2 128 \<le> \<bar>pow2 (e - 23) * of_int k\<bar> then (if 0 < v then PInf else NInf)
            else Finite (pow2 (e - 23) * of_int k))" and
    n: "\<bar>pow2 (e - 23) * of_int k - v\<bar> \<le> pow2 (e - 23) / 2"
    by blast
  have "\<lfloor>log 2 \<bar>v\<bar>\<rfloor> \<le> 127"
  proof (rule ccontr)
    assume "\<not> \<lfloor>log 2 \<bar>v\<bar>\<rfloor> \<le> 127"
    then have "128 \<le> \<lfloor>log 2 \<bar>v\<bar>\<rfloor>" by simp
    then have "pow2 128 \<le> pow2 \<lfloor>log 2 \<bar>v\<bar>\<rfloor>" by (rule pow2_mono)
    also have "\<dots> \<le> \<bar>v\<bar>" by (rule binade_bounds(1) [OF False])
    finally have "pow2 128 \<le> pow2 127" using assms by linarith
    moreover have "pow2 127 < pow2 128" by (rule pow2_strict_mono) simp
    ultimately show False by linarith
  qed
  with e have "e \<le> 127" by simp
  then have "pow2 (e - 23) \<le> pow2 104" by (intro pow2_mono) simp
  moreover have "pow2 104 < pow2 127" by (rule pow2_strict_mono) simp
  moreover have "pow2 127 + pow2 127 = pow2 128" by (simp add: pow2_def)
  ultimately have "\<bar>pow2 (e - 23) * of_int k\<bar> < pow2 128"
    using n assms pow2_pos [of "e - 23"] by linarith
  with r show ?thesis by simp
qed

subsection \<open>ComputeDistortion on a tiny input\<close>

text \<open>
  Claim C7. The claim is that \<^verbatim>\<open>ComputeDistortion\<close> never returns a NaN or an infinity
  for finite input in range. At \<open>u = 1e-30f\<close>, \<open>v = 0\<close> the product \<open>u * u\<close> underflows to
  zero, so the radius is zero although \<open>u\<close> is not; \<open>u / radius\<close> is then plus infinity,
  which the test \<^verbatim>\<open>unitU != unitU\<close> does not replace, and infinity times the sampled
  radius 0 is a NaN.
\<close>

theorem ComputeDistortion32_tiny_input_is_nan: "ComputeDistortion32 maps32 Eye_Left ColorChannelGreen tiny_u (Finite 0) =
  Some \<lparr>x32 = NaN, y32 = Finite 0\<rparr>"
proof -
  have uu: "fmul round32 tiny_u tiny_u = Finite 0"
    by (simp add: tiny_u_def round32_subnormal round_eval)
  have radius: "fsqrt round32 (fadd round32 (fmul round32 tiny_u tiny_u)
                  (fmul round32 (Finite 0) (Finite 0))) = Finite 0"
    by (simp add: uu)
  have unitU: "fdiv round32 tiny_u (Finite 0) = PInf"
    by (simp add: tiny_u_def)
  have unitV: "fdiv round32 (Finite 0) (Finite 0) = NaN"
    by simp
  have h: "round32 (1 / 2) = Finite (1 / 2)"
    by (simp add: round32_normal [where e = "- 1"] round_eval)
  have m: "SampleFromMap32 maps32 (radialUVMapG32 maps32) (Finite 0) = Some (Finite 0)"
    by (simp add: SampleFromMap32_def maps32_def float_to_int_def float_of_int_def lerp32_def
        fsub_def h)
  show ?thesis
    unfolding ComputeDistortion32_def radius unitU unitV
    by (simp add: fne_def float_of_int_def m Let_def unitU unitV)
qed

text \<open>At the centre itself both quotients are NaN, both are replaced, and the result is zero.\<close>

lemma ComputeDistortion32_zero_radius:
  "ComputeDistortion32 maps32 eEye ColorChannelGreen (Finite 0) (Finite 0) =
     Some \<lparr>x32 = Finite 0, y32 = Finite 0\<rparr>"
proof -
  have h: "round32 (1 / 2) = Finite (1 / 2)"
    by (simp add: round32_normal [where e = "- 1"] round_eval)
  have m: "SampleFromMap32 maps32 (radialUVMapG32 maps32) (Finite 0) = Some (Finite 0)"
    by (simp add: SampleFromMap32_def maps32_def float_to_int_def float_of_int_def lerp32_def
        fsub_def h)
  show ?thesis
    by (simp add: ComputeDistortion32_def fne_def float_of_int_def m Let_def)
qed

subsection \<open>SmoothPoints in binary32\<close>



lemma length_SmoothSegment32 [simp]: "length (SmoothSegment32 points c i) = Suc (nat c)"
  by (simp add: SmoothSegment32_def Let_def)

lemma hd_SmoothSegment32 [simp]: "hd (SmoothSegment32 points c i) = points ! i"
  by (simp add: SmoothSegment32_def Let_def)





subsection \<open>SampleFromPoints in binary32\<close>

text \<open>
  The claim C8 as it was stated fails in binary32: on the points \<open>(0, 0)\<close>,
  \<open>(10, 0.3f)\<close>, \<open>(20, 1.4f)\<close> the sample at degree 20 is one unit in the last place
  below the position of the last point.
\<close>

theorem SampleFromPoints32_misses_last_knot: "SampleFromPoints32 knot_points32 (degree32 (knot_points32 ! 2)) =
    Some (Finite (11744050 / 2 ^ 23)) \<and>
  position32 (knot_points32 ! 2) = Finite (11744051 / 2 ^ 23)"
proof -
  have "SampleFromPoints32_loop knot_points32 (Finite 20) 0 = Some (Finite (11744050 / 2 ^ 23))"
    by (simp add: SampleFromPoints32_loop.simps knot_points32_def fsub_def
        round32_small round_eval)
  then show ?thesis
    by (simp add: SampleFromPoints32_def knot_points32_def)
qed

lemma SampleFromPoints32_loop_first:
  assumes "i \<le> k" and "k < length points - 1"
    and "fle (degree32 (points ! k)) d" and "fle d (degree32 (points ! (k + 1)))"
    and "\<And>j. i \<le> j \<Longrightarrow> j < k \<Longrightarrow>
           \<not> (fle (degree32 (points ! j)) d \<and> fle d (degree32 (points ! (j + 1))))"
  shows "SampleFromPoints32_loop points d i = Some (interpolate32 points k d)"
  using assms
proof (induction points d i rule: SampleFromPoints32_loop.induct)
  case (1 points d i)
  show ?case
  proof (cases "i = k")
    case True
    with "1.prems" show ?thesis
      by (subst SampleFromPoints32_loop.simps) (simp add: interpolate32_def Let_def)
  next
    case False
    with "1.prems" have ik: "i < k" by simp
    then have nb: "\<not> (fle (degree32 (points ! i)) d \<and> fle d (degree32 (points ! (i + 1))))"
      using "1.prems"(5) [of i] by simp
    have "SampleFromPoints32_loop points d (i + 1) = Some (interpolate32 points k d)"
      using "1.IH" [OF _ nb] ik "1.prems" by simp
    with nb ik "1.prems"(2) show ?thesis
      by (subst SampleFromPoints32_loop.simps) auto
  qed
qed

lemma SampleFromPoints32_at_knot_segment:
  assumes deg: "map degree32 points = map Finite ds" and inc: "sorted_wrt (<) ds"
    and i: "i < length points"  and n: "2 \<le> length points"
  shows "SampleFromPoints32 points (degree32 (points ! i)) =
           Some (interpolate32 points (i - 1) (degree32 (points ! i)))"
proof -
  from deg have len: "length ds = length points" by (metis length_map)
  have d: "degree32 (points ! j) = Finite (ds ! j)" if "j < length points" for j
  proof -
    have "map degree32 points ! j = map Finite ds ! j" by (simp add: deg)
    with that len show ?thesis by simp
  qed
  have lt: "ds ! a < ds ! b" if "a < b" "b < length points" for a b
    using sorted_wrt_nth_less [OF inc, of a b] that len by simp
  from n have ne: "points \<noteq> []" by auto
  from n have l0: "0 < length points" and l1: "1 < length points" by auto
  have k: "i - 1 < length points - 1" using i n by simp
  have k1: "i - 1 + 1 < length points" using k by simp
  have "fle (degree32 (points ! (i - 1))) (degree32 (points ! i))"
  proof (cases "i = 0")
    case True
    then show ?thesis using d [OF i] by simp
  next
    case False
    then have ii: "i - 1 < i" by simp
    with i have "i - 1 < length points" by simp
    from lt [OF ii i] d [OF i] d [OF this] show ?thesis by simp
  qed
  moreover have "fle (degree32 (points ! i)) (degree32 (points ! (i - 1 + 1)))"
  proof (cases "i = 0")
    case True
    with lt [OF _ l1, of 0] d [OF l0] d [OF l1] show ?thesis by simp
  next
    case False
    then show ?thesis using d [OF i] by simp
  qed
  moreover have "\<not> (fle (degree32 (points ! j)) (degree32 (points ! i)) \<and>
                   fle (degree32 (points ! i)) (degree32 (points ! (j + 1))))"
    if "j < i - 1" for j
  proof -
    from that have ji: "j + 1 < i" by simp
    with i have "j + 1 < length points" by simp
    from lt [OF ji i] d [OF i] d [OF this] show ?thesis by simp
  qed
  ultimately have "SampleFromPoints32_loop points (degree32 (points ! i)) 0 =
      Some (interpolate32 points (i - 1) (degree32 (points ! i)))"
    using k by (intro SampleFromPoints32_loop_first) simp_all
  with ne show ?thesis by (simp add: SampleFromPoints32_def)
qed

lemma round32_1: "round32 1 = Finite 1"
  by (simp add: round32_normal [where e = 0] round_eval)

lemma list_all_nth: "list_all P xs \<Longrightarrow> j < length xs \<Longrightarrow> P (xs ! j)"
  by (simp add: list_all_length)

lemma SampleFromPoints32_at_later_knot:
  assumes deg: "map degree32 points = map Finite ds" and inc: "sorted_wrt (<) ds"
    and bin: "list_all is_binary32 ds" and bnd: "list_all (\<lambda>v. \<bar>v\<bar> \<le> pow2 126) ds"
    and i: "i < length points" and i0: "0 < i"
  shows "SampleFromPoints32 points (degree32 (points ! i)) =
           Some (fadd round32 (position32 (points ! (i - 1)))
                   (fmul round32 (Finite 1)
                      (fsub round32 (position32 (points ! i)) (position32 (points ! (i - 1))))))"
proof -
  from deg have len: "length ds = length points" by (metis length_map)
  from i i0 have n: "2 \<le> length points" by simp
  have d: "degree32 (points ! j) = Finite (ds ! j)" if "j < length points" for j
  proof -
    have "map degree32 points ! j = map Finite ds ! j" by (simp add: deg)
    with that len show ?thesis by simp
  qed
  define a where "a = ds ! (i - 1)"
  define b where "b = ds ! i"
  have k: "i - 1 < length points" using i by simp
  have ab: "a < b"
    using sorted_wrt_nth_less [OF inc, of "i - 1" i] i i0 len by (simp add: a_def b_def)
  have kd: "i - 1 < length ds" and id: "i < length ds" using i len by simp_all
  have bins: "is_binary32 a" "is_binary32 b"
    using list_all_nth [OF bin kd] list_all_nth [OF bin id]
    by (simp_all add: a_def b_def)
  have "\<bar>a\<bar> \<le> pow2 126" "\<bar>b\<bar> \<le> pow2 126"
    using list_all_nth [OF bnd kd] list_all_nth [OF bnd id]
    by (simp_all add: a_def b_def)
  moreover have "pow2 126 + pow2 126 = pow2 127" by (simp add: pow2_def)
  ultimately have "\<bar>b - a\<bar> \<le> pow2 127" by linarith
  from round32_finite [OF this] obtain w where w: "round32 (b - a) = Finite w" by blast
  with binary32_gap_not_0 [OF bins ab] have w0: "w \<noteq> 0" by auto
  have gap: "fsub round32 (Finite b) (Finite a) = Finite w"
    using w by (simp add: fsub_def)
  have t: "fdiv round32 (fsub round32 (Finite b) (Finite a)) (fsub round32 (Finite b) (Finite a)) =
             Finite 1"
    unfolding gap using w0 by (simp add: round32_1)
  have i1: "i - 1 + 1 = i" using i0 by simp
  have "interpolate32 points (i - 1) (degree32 (points ! i)) =
          fadd round32 (position32 (points ! (i - 1)))
                   (fmul round32 (Finite 1)
                      (fsub round32 (position32 (points ! i)) (position32 (points ! (i - 1)))))"
    unfolding interpolate32_def i1 d [OF i] d [OF k] a_def [symmetric] b_def [symmetric] t ..
  with SampleFromPoints32_at_knot_segment [OF deg inc i n] show ?thesis by simp
qed

lemma SampleFromPoints32_at_first_knot:
  assumes deg: "map degree32 points = map Finite ds" and inc: "sorted_wrt (<) ds"
    and bin: "list_all is_binary32 ds" and bnd: "list_all (\<lambda>v. \<bar>v\<bar> \<le> pow2 126) ds"
    and pos: "map position32 points = map Finite ps"
    and pbin: "list_all is_binary32 ps" and pbnd: "list_all (\<lambda>v. \<bar>v\<bar> \<le> pow2 126) ps"
    and n: "2 \<le> length points"
  shows "SampleFromPoints32 points (degree32 (points ! 0)) = Some (position32 (points ! 0))"
proof -
  from deg have len: "length ds = length points" by (metis length_map)
  from pos have plen: "length ps = length points" by (metis length_map)
  have d: "degree32 (points ! j) = Finite (ds ! j)" if "j < length points" for j
  proof -
    have "map degree32 points ! j = map Finite ds ! j" by (simp add: deg)
    with that len show ?thesis by simp
  qed
  have p: "position32 (points ! j) = Finite (ps ! j)" if "j < length points" for j
  proof -
    have "map position32 points ! j = map Finite ps ! j" by (simp add: pos)
    with that plen show ?thesis by simp
  qed
  from n have l0: "0 < length points" and l1: "1 < length points" by auto
  have d0: "0 < length ds" and d1: "1 < length ds" using l0 l1 len by simp_all
  have p0: "0 < length ps" and p1: "1 < length ps" using l0 l1 plen by simp_all
  define a where "a = ds ! 0"
  define b where "b = ds ! 1"
  have ab: "a < b"
    using sorted_wrt_nth_less [OF inc _ d1, of 0] by (simp add: a_def b_def)
  have bins: "is_binary32 a" "is_binary32 b"
    using list_all_nth [OF bin d0] list_all_nth [OF bin d1]
    by (simp_all add: a_def b_def)
  have "\<bar>a\<bar> \<le> pow2 126" "\<bar>b\<bar> \<le> pow2 126"
    using list_all_nth [OF bnd d0] list_all_nth [OF bnd d1]
    by (simp_all add: a_def b_def)
  moreover have s: "pow2 126 + pow2 126 = pow2 127" by (simp add: pow2_def)
  ultimately have "\<bar>b - a\<bar> \<le> pow2 127" by linarith
  from round32_finite [OF this] obtain w where w: "round32 (b - a) = Finite w" by blast
  with binary32_gap_not_0 [OF bins ab] have w0: "w \<noteq> 0" by auto
  have t: "fdiv round32 (fsub round32 (Finite a) (Finite a)) (fsub round32 (Finite b) (Finite a)) =
             Finite 0"
    using w w0 by (simp add: fsub_def)
  have "\<bar>ps ! 0\<bar> \<le> pow2 126" "\<bar>ps ! 1\<bar> \<le> pow2 126"
    using list_all_nth [OF pbnd p0] list_all_nth [OF pbnd p1] by simp_all
  with s have "\<bar>ps ! 1 - ps ! 0\<bar> \<le> pow2 127" by linarith
  from round32_finite [OF this] obtain g where g: "round32 (ps ! 1 - ps ! 0) = Finite g" by blast
  have "is_binary32 (ps ! 0)"
    by (rule list_all_nth [OF pbin p0])
  then have r: "round32 (ps ! 0) = Finite (ps ! 0)" by (simp add: is_binary32_def)
  have "interpolate32 points 0 (degree32 (points ! 0)) = Finite (ps ! 0)"
    unfolding interpolate32_def
    using t g r d [OF l0] d [OF l1] p [OF l0] p [OF l1]
    by (simp add: a_def b_def fsub_def)
  with SampleFromPoints32_at_knot_segment [OF deg inc l0 n] p [OF l0] show ?thesis by simp
qed

text \<open>
  Claim C8, amended. On at least two points with strictly increasing degrees: over exact
  reals, sampling at the degree of any point returns that point's position. In binary32
  (degrees and positions binary32 values of magnitude at most \<open>2^126\<close>, so that no
  difference overflows), sampling at the degree of the first point returns its position
  exactly, and sampling at the degree of a later point \<open>j\<close> returns
  \<open>p(j - 1) + 1 * (p(j) - p(j - 1))\<close> with each of the three operations rounded.
\<close>

theorem SampleFromPoints_at_knot_exact_and_binary32:
  assumes n: "2 \<le> length points"
    and inc: "sorted_wrt (<) (map degree points)"
    and i: "i < length points"
    and n32: "2 \<le> length points32"
    and deg: "map degree32 points32 = map Finite ds"
    and inc32: "sorted_wrt (<) ds"
    and bin: "list_all is_binary32 ds"
    and bnd: "list_all (\<lambda>v. \<bar>v\<bar> \<le> pow2 126) ds"
    and pos: "map position32 points32 = map Finite ps"
    and pbin: "list_all is_binary32 ps"
    and pbnd: "list_all (\<lambda>v. \<bar>v\<bar> \<le> pow2 126) ps"
    and j: "j < length points32"
  shows "SampleFromPoints points (degree (points ! i)) = Some (position (points ! i)) \<and>
    SampleFromPoints32 points32 (degree32 (points32 ! j)) =
      Some (if j = 0 then position32 (points32 ! 0)
            else fadd round32 (position32 (points32 ! (j - 1)))
                   (fmul round32 (Finite 1)
                      (fsub round32 (position32 (points32 ! j))
                         (position32 (points32 ! (j - 1))))))"
proof (cases "j = 0")
  case True
  with SampleFromPoints_at_knot [OF n inc i]
    SampleFromPoints32_at_first_knot [OF deg inc32 bin bnd pos pbin pbnd n32]
  show ?thesis by simp
next
  case False
  then have "0 < j" by simp
  from SampleFromPoints_at_knot [OF n inc i]
    SampleFromPoints32_at_later_knot [OF deg inc32 bin bnd j this] False
  show ?thesis by simp
qed

theorem SampleFromPoints_at_knot_exact_and_binary32_witness:
  "2 \<le> length scenario_points \<and>
   sorted_wrt (<) (map degree scenario_points) \<and>
   2 \<le> length knot_points32 \<and>
   map degree32 knot_points32 = map Finite [0, 10, 20] \<and>
   sorted_wrt (<) [0, 10, 20 :: real] \<and>
   list_all is_binary32 [0, 10, 20] \<and>
   list_all (\<lambda>v. \<bar>v\<bar> \<le> pow2 126) [0, 10, 20] \<and>
   map position32 knot_points32 = map Finite [0, 5033165 / 2 ^ 24, 11744051 / 2 ^ 23] \<and>
   list_all is_binary32 [0, 5033165 / 2 ^ 24, 11744051 / 2 ^ 23] \<and>
   list_all (\<lambda>v. \<bar>v\<bar> \<le> pow2 126) [0, 5033165 / 2 ^ 24, 11744051 / 2 ^ 23] \<and>
   SampleFromPoints scenario_points 20 = Some 22 \<and>
   SampleFromPoints32 knot_points32 (Finite 0) = Some (Finite 0) \<and>
   SampleFromPoints32 knot_points32 (Finite 20) = Some (Finite (11744050 / 2 ^ 23))"
proof -
  have e: "2 \<le> length scenario_points" "sorted_wrt (<) (map degree scenario_points)"
    "(2::nat) < length scenario_points"
    by (simp_all add: scenario_points_def)
  have b: "2 \<le> length knot_points32"
    "map degree32 knot_points32 = map Finite [0, 10, 20]"
    "sorted_wrt (<) [0, 10, 20 :: real]"
    "list_all is_binary32 [0, 10, 20]"
    "list_all (\<lambda>v. \<bar>v\<bar> \<le> pow2 126) [0, 10, 20]"
    "map position32 knot_points32 = map Finite [0, 5033165 / 2 ^ 24, 11744051 / 2 ^ 23]"
    "list_all is_binary32 [0, 5033165 / 2 ^ 24, 11744051 / 2 ^ 23]"
    "list_all (\<lambda>v. \<bar>v\<bar> \<le> pow2 126) [0, 5033165 / 2 ^ 24, 11744051 / 2 ^ 23]"
    by (simp_all add: knot_points32_def is_binary32_def round32_small round_eval)
  have j0: "(0::nat) < length knot_points32" and j2: "(2::nat) < length knot_points32"
    by (simp_all add: knot_points32_def)
  have r: "fadd round32 (Finite (5033165 / 2 ^ 24))
             (fmul round32 (Finite 1)
                (fsub round32 (Finite (11744051 / 2 ^ 23)) (Finite (5033165 / 2 ^ 24)))) =
           Finite (11744050 / 2 ^ 23)"
    by (simp add: fsub_def round32_small round_eval)
  from SampleFromPoints_at_knot_exact_and_binary32 [OF e(1,2,3) b j0]
  have "SampleFromPoints scenario_points 20 = Some 22"
    and "SampleFromPoints32 knot_points32 (Finite 0) = Some (Finite 0)"
    by (simp_all add: scenario_points_def knot_points32_def)
  moreover from SampleFromPoints_at_knot_exact_and_binary32 [OF e(1,2,3) b j2]
  have "SampleFromPoints32 knot_points32 (Finite 20) = Some (Finite (11744050 / 2 ^ 23))"
    using r by (simp add: knot_points32_def)
  ultimately show ?thesis using e b by simp
qed

end
